theory Spec2Isabelle
  imports Main "HOL-Library.Word" "HOL-Library.Sublist"
begin

section \<open>Text and bytes\<close>

text \<open>
  A JavaScript string is a sequence of 16-bit code units; a \<open>Uint8Array\<close> is a sequence
  of bytes. \<open>js\<close> turns a literal of the theory into the string of the same code units.
\<close>

type_synonym jschar = "16 word"
type_synonym jsstring = "jschar list"
type_synonym bytes = "8 word list"

definition js :: "string \<Rightarrow> jsstring" where
  "js lit = map of_char lit"

text \<open>
  \<open>String.prototype.indexOf\<close>: the position of the first occurrence of \<open>t\<close> in \<open>s\<close>,
  or \<open>-1\<close>. The empty string occurs at position 0 of every string.
\<close>

fun indexOfFrom :: "nat \<Rightarrow> 'a list \<Rightarrow> 'a list \<Rightarrow> int" where
  "indexOfFrom i [] t = (if t = [] then int i else - 1)"
| "indexOfFrom i (c # s) t =
     (if prefix t (c # s) then int i else indexOfFrom (Suc i) s t)"

definition indexOf :: "'a list \<Rightarrow> 'a list \<Rightarrow> int" where
  "indexOf s t = indexOfFrom 0 s t"

text \<open>\<open>s.slice(i, j)\<close> for indices \<open>0 \<le> i \<le> j\<close>; \<open>j\<close> may lie beyond the end.\<close>

definition slice :: "'a list \<Rightarrow> nat \<Rightarrow> nat \<Rightarrow> 'a list" where
  "slice s i j = take (j - i) (drop i s)"

section \<open>The session: \<open>MicroPythonWrapper\<close>\<close>

text \<open>
  A promise created by \<open>readUntil\<close> is an index into the list \<open>promises\<close>; settling a
  promise that is already settled does nothing, as in JavaScript. The two callback
  fields hold \<open>null\<close>, the closure that settles promise \<open>p\<close>, or \<open>() => false\<close>.

  \<open>written\<close> is what the writer has been handed (the text given to \<open>write\<close>, before
  \<open>TextEncoder\<close>), \<open>onDisconnect\<close> says whether a callback is registered and \<open>notified\<close>
  counts its invocations; \<open>reading\<close> says whether the loop of \<open>readForeverAndReport\<close> is
  still running.
\<close>

datatype settlement = Pending | Resolved jsstring | Rejected jsstring

datatype callback = Null | Settle nat | Noop

datatype chunk = Bytes bytes | Text jsstring

record session =
  decoder :: "bytes \<Rightarrow> jsstring"
  readingBuffer :: jsstring
  readingUntil :: "jsstring option"
  resolveReadingUntilPromise :: callback
  rejectReadingUntilPromise :: callback
  promises :: "settlement list"
  written :: "jsstring list"
  isConnected :: bool
  onDisconnect :: bool
  notified :: nat
  reading :: bool

definition settle :: "nat \<Rightarrow> settlement \<Rightarrow> settlement list \<Rightarrow> settlement list" where
  "settle p v ps = (if p < length ps \<and> ps ! p = Pending then ps[p := v] else ps)"

definition status :: "session \<Rightarrow> nat \<Rightarrow> settlement" where
  "status s p = (if p < length (promises s) then promises s ! p else Pending)"

text \<open>The closures installed by \<open>readUntil\<close> (lines 88-101), and \<open>() => false\<close>.\<close>

definition callResolve :: "callback \<Rightarrow> jsstring \<Rightarrow> session \<Rightarrow> session" where
  "callResolve cb result s =
     (case cb of
        Settle p \<Rightarrow>
          s\<lparr>readingUntil := None, readingBuffer := [],
            resolveReadingUntilPromise := Noop, rejectReadingUntilPromise := Noop,
            promises := settle p (Resolved result) (promises s)\<rparr>
      | _ \<Rightarrow> s)"

definition callReject :: "callback \<Rightarrow> jsstring \<Rightarrow> session \<Rightarrow> session" where
  "callReject cb msg s =
     (case cb of
        Settle p \<Rightarrow>
          s\<lparr>readingUntil := None, readingBuffer := [],
            resolveReadingUntilPromise := Noop, rejectReadingUntilPromise := Noop,
            promises := settle p (Rejected (if msg = [] then js ''readUntil rejected'' else msg))
              (promises s)\<rparr>
      | _ \<Rightarrow> s)"

definition decodeChunk :: "session \<Rightarrow> chunk \<Rightarrow> jsstring" where
  "decodeChunk s buffer = (case buffer of Bytes b \<Rightarrow> decoder s b | Text t \<Rightarrow> t)"

definition onData :: "session \<Rightarrow> chunk \<Rightarrow> session" where
  "onData s buffer =
     (let str = decodeChunk s buffer in
      case readingUntil s of
        None \<Rightarrow> s
      | Some tok \<Rightarrow>
          let s1 = s\<lparr>readingBuffer := readingBuffer s @ str\<rparr> in
          if indexOf (readingBuffer s1) tok \<noteq> - 1 then
            let response = readingBuffer s1;
                s2 = s1\<lparr>readingUntil := None, readingBuffer := []\<rparr>
            in callResolve (resolveReadingUntilPromise s2) response s2
          else s1)"

text \<open>\<open>write\<close> (named \<open>writeStr\<close>: \<open>write\<close> is a keyword of Isabelle).\<close>

definition writeStr :: "session \<Rightarrow> jsstring \<Rightarrow> session" where
  "writeStr s str = s\<lparr>written := written s @ [str]\<rparr>"

text \<open>
  \<open>readUntil\<close> returns a promise: \<open>Inl msg\<close> is the promise already rejected with
  \<open>Error(msg)\<close>, \<open>Inr p\<close> the new pending promise \<open>p\<close>.
\<close>

definition alreadyRunning :: jsstring where
  "alreadyRunning = js ''Already running '' @ [0x22] @ js ''read until'' @ [0x22]"

definition readUntil :: "session \<Rightarrow> jsstring \<Rightarrow> (jsstring + nat) \<times> session" where
  "readUntil s token =
     (if readingUntil s \<noteq> None then (Inl alreadyRunning, s)
      else
        let p = length (promises s) in
        (Inr p,
         s\<lparr>readingBuffer := [], readingUntil := Some token,
           resolveReadingUntilPromise := Settle p, rejectReadingUntilPromise := Settle p,
           promises := promises s @ [Pending]\<rparr>))"

text \<open>The chunks the read loop hands to \<open>onData\<close>, one after the other.\<close>

definition feed :: "session \<Rightarrow> chunk list \<Rightarrow> session" where
  "feed s cs = foldl onData s cs"

text \<open>A session after \<open>init\<close>, with nothing read or written yet.\<close>

definition newSession :: "(bytes \<Rightarrow> jsstring) \<Rightarrow> bool \<Rightarrow> session" where
  "newSession dec cb =
     \<lparr>decoder = dec, readingBuffer = [], readingUntil = None,
      resolveReadingUntilPromise = Null, rejectReadingUntilPromise = Null,
      promises = [], written = [], isConnected = True, onDisconnect = cb,
      notified = 0, reading = True\<rparr>"

text \<open>A decoder for the examples: on bytes below 128 it is what \<open>TextDecoder\<close> returns.\<close>

definition decodeAscii :: "bytes \<Rightarrow> jsstring" where
  "decodeAscii b = map ucast b"


section \<open>Awaiting: the session under arriving data\<close>

text \<open>
  An \<open>async\<close> function runs on the session while the read loop delivers chunks. The
  arrivals are a list of batches: each point where the function awaits something
  other than a \<open>readUntil\<close> promise (a \<open>write\<close>, a timer) takes the next batch, whose
  chunks the read loop hands to \<open>onData\<close> meanwhile; awaiting a \<open>readUntil\<close> promise
  takes chunks, batch after batch, until the promise is settled, and leaves the rest of
  the batch to the next await. A function ends fulfilled, with an exception, or hung
  when the arrivals end and its promise is still pending.
\<close>

datatype 'a completion = Fulfilled 'a | Thrown jsstring | Hung

type_synonym arrivals = "chunk list list"

type_synonym 'a async = "session \<Rightarrow> arrivals \<Rightarrow> 'a completion \<times> session \<times> arrivals"

fun arrive :: "session \<Rightarrow> arrivals \<Rightarrow> session \<times> arrivals" where
  "arrive s [] = (s, [])"
| "arrive s (b # bs) = (feed s b, bs)"

definition outcome :: "settlement \<Rightarrow> jsstring completion" where
  "outcome v = (case v of Resolved r \<Rightarrow> Fulfilled r | Rejected e \<Rightarrow> Thrown e | Pending \<Rightarrow> Hung)"

fun awaitPromise :: "nat \<Rightarrow> jsstring async" where
  "awaitPromise p s [] = (outcome (status s p), s, [])"
| "awaitPromise p s ([] # bs) =
     (if status s p \<noteq> Pending then (outcome (status s p), s, [] # bs)
      else awaitPromise p s bs)"
| "awaitPromise p s ((c # cs) # bs) =
     (if status s p \<noteq> Pending then (outcome (status s p), s, (c # cs) # bs)
      else awaitPromise p (onData s c) (cs # bs))"

definition returnA :: "'a \<Rightarrow> 'a async" where
  "returnA x s env = (Fulfilled x, s, env)"

definition andThen :: "'a async \<Rightarrow> ('a \<Rightarrow> 'b async) \<Rightarrow> 'b async" where
  "andThen m f s env =
     (case m s env of
        (Fulfilled x, s1, env1) \<Rightarrow> f x s1 env1
      | (Thrown e, s1, env1) \<Rightarrow> (Thrown e, s1, env1)
      | (Hung, s1, env1) \<Rightarrow> (Hung, s1, env1))"

text \<open>\<open>await this.readUntil(token)\<close>.\<close>

definition awaitReadUntil :: "jsstring \<Rightarrow> jsstring async" where
  "awaitReadUntil token s env =
     (case readUntil s token of
        (Inl msg, s1) \<Rightarrow> (Thrown msg, s1, env)
      | (Inr p, s1) \<Rightarrow> awaitPromise p s1 env)"

section \<open>The raw REPL protocol\<close>

text \<open>A string is truthy unless it is \<open>null\<close> or empty.\<close>

definition truthy :: "jsstring option \<Rightarrow> bool" where
  "truthy v = (case v of None \<Rightarrow> False | Some t \<Rightarrow> t \<noteq> [])"

text \<open>
  \<open>getPrompt\<close>, \<open>enterRawRepl\<close> and \<open>exitRawRepl\<close> call \<open>write\<close> without awaiting it: the
  text is handed to the writer at once and nothing arrives in between. Calling the
  reject callback while it is \<open>null\<close> is a \<open>TypeError\<close>.
\<close>

definition getPrompt :: "unit async" where
  "getPrompt s env =
     (if truthy (readingUntil s) \<and> rejectReadingUntilPromise s = Null
      then (Thrown (js ''TypeError''), s, env)
      else
        let s1 = (if truthy (readingUntil s)
                  then callReject (rejectReadingUntilPromise s)
                         (js ''Interrupt execution to get prompt'') s
                  else s);
            s2 = writeStr s1 [0x03, 0x02]
        in andThen (awaitReadUntil (js ''>>>'')) (\<lambda>_. returnA ()) s2 env)"

definition enterRawRepl :: "unit async" where
  "enterRawRepl s env =
     andThen (awaitReadUntil (js ''raw REPL; CTRL-B to exit'')) (\<lambda>_. returnA ())
       (writeStr s [0x01]) env"

definition exitRawRepl :: "unit async" where
  "exitRawRepl s env =
     andThen (awaitReadUntil (js ''>>>'')) (\<lambda>_. returnA ()) (writeStr s [0x02]) env"

definition S :: nat where
  "S = 128"

text \<open>
  The loop of \<open>executeRaw\<close>, from index \<open>i\<close>: per slice an awaited \<open>write\<close> and an
  awaited timer, each an \<open>arrive\<close>.
\<close>

function executeRaw_loop :: "jsstring \<Rightarrow> nat \<Rightarrow> session \<Rightarrow> arrivals \<Rightarrow> session \<times> arrivals" where
  "executeRaw_loop code i s env =
     (if i < length code then
        (case arrive (writeStr s (slice code i (i + S))) env of
           (s1, env1) \<Rightarrow>
             (case arrive s1 env1 of
                (s2, env2) \<Rightarrow> executeRaw_loop code (i + S) s2 env2))
      else (s, env))"
  by pat_completeness auto
termination
  by (relation "measure (\<lambda>(code, i, s, env). length code - i)") (auto simp: S_def)

declare executeRaw_loop.simps [simp del]

definition executeRaw :: "jsstring \<Rightarrow> jsstring async" where
  "executeRaw code s env =
     (case executeRaw_loop code 0 s env of
        (s1, env1) \<Rightarrow>
          (case arrive (writeStr s1 [0x04]) env1 of
             (s2, env2) \<Rightarrow> awaitReadUntil [0x04, 0x3E] s2 env2))"

text \<open>
  What \<open>executeRaw\<close> hands to the writer for a command, in the words of the
  specification: the command in consecutive slices of \<open>S\<close> code units, then the byte 4.
\<close>

definition executeRaw_writes :: "jsstring \<Rightarrow> jsstring list" where
  "executeRaw_writes code =
     map (\<lambda>k. slice code (k * S) (k * S + S)) [0..<(length code + S - 1) div S] @ [[0x04]]"

section \<open>File transfer operations\<close>

text \<open>The text of a template literal: the quote character, a decimal number, a byte array.\<close>

definition quote :: jsstring where
  "quote = [0x27]"

function toDecimal :: "nat \<Rightarrow> jsstring" where
  "toDecimal n = (if n < 10 then [of_nat (48 + n)] else toDecimal (n div 10) @ [of_nat (48 + n mod 10)])"
  by pat_completeness auto
termination
  by (relation "measure id") auto

declare toDecimal.simps [simp del]

text \<open>\<open>Uint8Array.prototype.toString\<close>: the elements in decimal, joined by commas.\<close>

fun joinBytes :: "bytes \<Rightarrow> jsstring" where
  "joinBytes [] = []"
| "joinBytes [b] = toDecimal (unat b)"
| "joinBytes (b # c # rest) = toDecimal (unat b) @ js '','' @ joinBytes (c # rest)"

text \<open>\<open>path.replace(/'/g, "\\'")\<close>: a backslash before every single quote.\<close>

definition escapeQuotes :: "jsstring \<Rightarrow> jsstring" where
  "escapeQuotes path = concat (map (\<lambda>c. if c = 0x27 then [0x5C, 0x27] else [c]) path)"

text \<open>The commands the operations build, by the operation that sends them.\<close>

definition createFolder_command :: "jsstring \<Rightarrow> jsstring" where
  "createFolder_command path = js ''import os;os.mkdir('' @ quote @ path @ quote @ js '')''"

definition removeFolder_command :: "jsstring \<Rightarrow> jsstring" where
  "removeFolder_command path = js ''delete_folder('' @ quote @ path @ quote @ js '')''"

definition createFile_command :: "jsstring \<Rightarrow> jsstring" where
  "createFile_command path =
     js ''f=open('' @ quote @ path @ quote @ js '', '' @ quote @ js ''w'' @ quote @ js '');f.close()''"

definition removeFile_command :: "jsstring \<Rightarrow> jsstring" where
  "removeFile_command path =
     js ''import uos'' @ [0x0A] @ js ''try:'' @ [0x0A] @
     js ''  uos.remove('' @ [0x22] @ path @ [0x22] @ js '')'' @ [0x0A] @
     js ''except OSError:'' @ [0x0A] @ js ''  print(0)'' @ [0x0A]"

definition loadFile_command :: "jsstring \<Rightarrow> jsstring" where
  "loadFile_command path =
     js ''with open('' @ quote @ path @ quote @ js '','' @ quote @ js ''r'' @ quote @
     js '') as f:'' @ [0x0A] @ js '' while 1:'' @ [0x0A] @ js ''  b=f.read(256)'' @ [0x0A] @
     js ''  if not b:break'' @ [0x0A] @ js ''  print(b,end='' @ quote @ quote @ js '')''"

definition downloadFile_command :: "jsstring \<Rightarrow> jsstring" where
  "downloadFile_command source =
     js ''with open('' @ quote @ source @ quote @ js '','' @ quote @ js ''rb'' @ quote @
     js '') as f:'' @ [0x0A] @ js ''  b = b2a_base64(f.read())'' @ [0x0A] @
     js ''  for i in b:'' @ [0x0A] @ js ''    print( chr(i), end='' @ quote @ quote @ js '' )'' @ [0x0A]"

definition uploadFile_open_command :: "jsstring \<Rightarrow> jsstring" where
  "uploadFile_open_command path =
     js ''f=open('' @ quote @ escapeQuotes path @ quote @ js '','' @ quote @ js ''wb'' @ quote @
     js '')'' @ [0x0A] @ js ''w=f.write''"

definition uploadFile_chunk_command :: "bytes \<Rightarrow> jsstring" where
  "uploadFile_chunk_command c = js ''w(bytes(['' @ joinBytes c @ js '']))''"

text \<open>
  What the device's Python reads in the brackets of such a command, in the words of the
  specification, a literal decimal byte list: the text between the commas, each a
  decimal numeral; nothing between the brackets is the empty list.
\<close>

definition digit_value :: "jschar \<Rightarrow> nat" where
  "digit_value c = unat c - 48"

definition decimal_value :: "jsstring \<Rightarrow> nat" where
  "decimal_value t = foldl (\<lambda>n c. 10 * n + digit_value c) 0 t"

fun split_commas :: "jsstring \<Rightarrow> jsstring list" where
  "split_commas [] = [[]]"
| "split_commas (c # t) =
     (if c = 0x2C then [] # split_commas t
      else (case split_commas t of [] \<Rightarrow> [[c]] | w # ws \<Rightarrow> (c # w) # ws))"

definition byte_list_value :: "jsstring \<Rightarrow> nat list" where
  "byte_list_value t = (if t = [] then [] else map decimal_value (split_commas t))"

definition CHUNK_SIZE :: nat where
  "CHUNK_SIZE = 512"

text \<open>
  The loop of \<open>uploadFile\<close>, from index \<open>i\<close>; \<open>reported\<close> collects the calls of the
  reporter, \<open>(uploaded, total)\<close>, and is the value of the loop when it completes.
\<close>

function uploadFile_loop :: "bytes \<Rightarrow> nat \<Rightarrow> (nat \<times> nat) list \<Rightarrow> (nat \<times> nat) list async" where
  "uploadFile_loop content i reported s env =
     (if i < length content then
        (case executeRaw (uploadFile_chunk_command (slice content i (i + CHUNK_SIZE))) s env of
           (Fulfilled out, s1, env1) \<Rightarrow>
             uploadFile_loop content (i + CHUNK_SIZE)
               (reported @ [(min (i + CHUNK_SIZE) (length content), length content)]) s1 env1
         | (Thrown e, s1, env1) \<Rightarrow> (Thrown e, s1, env1)
         | (Hung, s1, env1) \<Rightarrow> (Hung, s1, env1))
      else (Fulfilled reported, s, env))"
  by pat_completeness auto
termination
  by (relation "measure (\<lambda>(content, i, reported, s, env). length content - i)")
     (auto simp: CHUNK_SIZE_def)

declare uploadFile_loop.simps [simp del]

definition uploadFile :: "jsstring \<Rightarrow> bytes \<Rightarrow> (nat \<times> nat) list async" where
  "uploadFile path content =
     andThen getPrompt (\<lambda>_.
     andThen enterRawRepl (\<lambda>_.
     andThen (executeRaw (uploadFile_open_command path)) (\<lambda>_.
     andThen (uploadFile_loop content 0 []) (\<lambda>reported.
     andThen (executeRaw (js ''f.close()'')) (\<lambda>_.
     andThen exitRawRepl (\<lambda>_. returnA reported))))))"

definition createFolder :: "jsstring \<Rightarrow> unit async" where
  "createFolder path =
     andThen getPrompt (\<lambda>_.
     andThen enterRawRepl (\<lambda>_.
     andThen (executeRaw (createFolder_command path)) (\<lambda>_. exitRawRepl)))"

definition createFile :: "jsstring \<Rightarrow> unit async" where
  "createFile path =
     andThen getPrompt (\<lambda>_.
     andThen enterRawRepl (\<lambda>_.
     andThen (executeRaw (createFile_command path)) (\<lambda>_. exitRawRepl)))"

definition removeFile :: "jsstring \<Rightarrow> unit async" where
  "removeFile path =
     andThen getPrompt (\<lambda>_.
     andThen enterRawRepl (\<lambda>_.
     andThen (executeRaw (removeFile_command path)) (\<lambda>_. exitRawRepl)))"

text \<open>\<open>HELPER_CODE\<close>, line by line; every line ends with a newline.\<close>

definition HELPER_CODE :: jsstring where
  "HELPER_CODE = concat (map (\<lambda>l. js l @ [0x0A])
     [''import os'',
      ''import json'',
      ''os.chdir('/')'',
      [],
      ''def is_directory(path):'',
      ''  return True if os.stat(path)[0] == 0x4000 else False'',
      [],
      ''def get_all_files(path, array_of_files = []):'',
      ''  files = os.ilistdir(path)'',
      ''  for file in files:'',
      ''    is_folder = file[1] == 16384'',
      ''    p = path + '/' + file[0]'',
      ''    array_of_files.append({'',
      ''        \"path\": p,'',
      ''        \"type\": \"folder\" if is_folder else \"file\"'',
      ''    })'',
      ''    if is_folder:'',
      ''        array_of_files = get_all_files(p, array_of_files)'',
      ''  return array_of_files'',
      [],
      ''def ilist_all(path):'',
      ''  print(json.dumps(get_all_files(path)))'',
      [],
      ''def delete_folder(path):'',
      ''  files = get_all_files(path)'',
      ''  for file in files:'',
      ''    if file['type'] == 'file':'',
      ''        os.remove(file['path'])'',
      ''  for file in reversed(files):'',
      ''    if file['type'] == 'folder':'',
      ''        os.rmdir(file['path'])'',
      ''  os.rmdir(path)''])"

definition runHelper :: "jsstring async" where
  "runHelper =
     andThen getPrompt (\<lambda>_.
     andThen enterRawRepl (\<lambda>_.
     andThen (executeRaw HELPER_CODE) (\<lambda>out.
     andThen exitRawRepl (\<lambda>_. returnA out))))"

definition removeFolder :: "jsstring \<Rightarrow> unit async" where
  "removeFolder path =
     andThen getPrompt (\<lambda>_.
     andThen runHelper (\<lambda>_.
     andThen enterRawRepl (\<lambda>_.
     andThen (executeRaw (removeFolder_command path)) (\<lambda>_. exitRawRepl))))"

text \<open>
  \<open>downloadFile\<close> returns what stands between the first \<open>OK\<close> and the first byte 4 of
  the output (lines 221-224, here \<open>downloadFile_extract\<close>).
\<close>

definition downloadFile_extract :: "jsstring \<Rightarrow> jsstring" where
  "downloadFile_extract output =
     (let idxOk = indexOf output (js ''OK'');
          idxEnd = indexOf output [0x04]
      in if idxOk = - 1 \<or> idxEnd = - 1 then []
         else slice output (nat (idxOk + 2)) (nat idxEnd))"

definition downloadFile :: "jsstring \<Rightarrow> jsstring async" where
  "downloadFile source =
     andThen getPrompt (\<lambda>_.
     andThen runHelper (\<lambda>_.
     andThen enterRawRepl (\<lambda>_.
     andThen (executeRaw (downloadFile_command source)) (\<lambda>output.
     andThen exitRawRepl (\<lambda>_. returnA (downloadFile_extract output))))))"

text \<open>
  \<open>downloadFileToBytes\<close>; \<open>atob\<close> is the browser's base64 decoder, a parameter here.
  \<open>Uint8Array.from(decoded, c => c.charCodeAt(0))\<close> keeps the low byte of every code unit.
\<close>

definition downloadFileToBytes :: "(jsstring \<Rightarrow> jsstring) \<Rightarrow> jsstring \<Rightarrow> bytes async" where
  "downloadFileToBytes atob path =
     andThen (downloadFile path) (\<lambda>base64. returnA (map ucast (atob base64)))"

section \<open>The read loop and \<open>close\<close>\<close>

text \<open>
  What \<open>reader.read()\<close> gives one turn of the loop of \<open>readForeverAndReport\<close>: a chunk,
  the end of the stream, or an error.
\<close>

datatype readResult = Value chunk | Done | Failed

definition callOnDisconnect :: "session \<Rightarrow> session" where
  "callOnDisconnect s = (if onDisconnect s then s\<lparr>notified := Suc (notified s)\<rparr> else s)"

definition readForeverAndReport_step :: "session \<Rightarrow> readResult \<Rightarrow> session" where
  "readForeverAndReport_step s r =
     (if \<not> reading s then s
      else case r of
        Done \<Rightarrow> callOnDisconnect (s\<lparr>isConnected := False, reading := False\<rparr>)
      | Value v \<Rightarrow> onData s v
      | Failed \<Rightarrow> s\<lparr>reading := False\<rparr>)"

text \<open>
  \<open>close\<close>: \<open>reader.cancel()\<close> ends the stream, so a loop that is still reading gets
  \<open>done\<close> from its pending \<open>read()\<close> and runs that branch; then \<open>close\<close> itself marks the
  session not connected and calls the callback.
\<close>

definition close :: "session \<Rightarrow> session" where
  "close s =
     (let s1 = readForeverAndReport_step s Done
      in callOnDisconnect (s1\<lparr>isConnected := False\<rparr>))"

text \<open>The listener on the \<open>disconnect\<close> event of \<open>navigator.serial\<close>, for this port.\<close>

definition serialDisconnect :: "session \<Rightarrow> session" where
  "serialDisconnect s = callOnDisconnect (s\<lparr>isConnected := False\<rparr>)"

datatype event = Read readResult | Close | SerialDisconnect

fun step :: "session \<Rightarrow> event \<Rightarrow> session" where
  "step s (Read r) = readForeverAndReport_step s r"
| "step s Close = close s"
| "step s SerialDisconnect = serialDisconnect s"

definition lifetime :: "session \<Rightarrow> event list \<Rightarrow> session" where
  "lifetime s evs = foldl step s evs"

text \<open>
  The notifications of a lifetime in the words of the amended claim: what each event
  adds while the loop is, or is no longer, reading, and whether the loop reads on.
\<close>

fun still_reading :: "bool \<Rightarrow> event \<Rightarrow> bool" where
  "still_reading r (Read (Value v)) = r"
| "still_reading r (Read Done) = False"
| "still_reading r (Read Failed) = False"
| "still_reading r Close = False"
| "still_reading r SerialDisconnect = r"

fun notifies :: "bool \<Rightarrow> event \<Rightarrow> nat" where
  "notifies r (Read (Value v)) = 0"
| "notifies r (Read Done) = (if r then 1 else 0)"
| "notifies r (Read Failed) = 0"
| "notifies r Close = (if r then 2 else 1)"
| "notifies r SerialDisconnect = 1"

fun notifications :: "bool \<Rightarrow> event list \<Rightarrow> nat" where
  "notifications r [] = 0"
| "notifications r (e # es) = notifies r e + notifications (still_reading r e) es"

section \<open>The helper on the device: \<open>get_all_files\<close> and \<open>delete_folder\<close>\<close>

text \<open>
  The helper is Python run by the device. The three functions of its \<open>os\<close> module are
  parameters: each returns its result or raises \<open>OSError\<close>, and a call that raises
  leaves the file system as it was. An entry of \<open>os.ilistdir\<close> is a name and a type
  code. \<open>depth\<close> is the number of nested calls the interpreter still allows; beyond
  it Python raises \<open>RuntimeError\<close>. \<open>runHelper\<close> defines \<open>get_all_files\<close> afresh before
  each use, so its default argument is the empty list.
\<close>

datatype pyerror = OSError nat | RuntimeError

record entry =
  epath :: string
  etype :: string

record 'fs os =
  os_ilistdir :: "'fs \<Rightarrow> string \<Rightarrow> pyerror + (string \<times> nat) list"
  os_remove :: "'fs \<Rightarrow> string \<Rightarrow> pyerror + 'fs"
  os_rmdir :: "'fs \<Rightarrow> string \<Rightarrow> pyerror + 'fs"

fun get_all_files :: "'fs os \<Rightarrow> 'fs \<Rightarrow> nat \<Rightarrow> string \<Rightarrow> entry list \<Rightarrow> pyerror + entry list"
  and get_all_files_loop ::
    "'fs os \<Rightarrow> 'fs \<Rightarrow> nat \<Rightarrow> string \<Rightarrow> (string \<times> nat) list \<Rightarrow> entry list \<Rightarrow> pyerror + entry list"
where
  "get_all_files os fs 0 path array_of_files = Inl RuntimeError"
| "get_all_files os fs (Suc depth) path array_of_files =
     (case os_ilistdir os fs path of
        Inl e \<Rightarrow> Inl e
      | Inr files \<Rightarrow> get_all_files_loop os fs depth path files array_of_files)"
| "get_all_files_loop os fs depth path [] array_of_files = Inr array_of_files"
| "get_all_files_loop os fs depth path (file # files) array_of_files =
     (let is_folder = (snd file = 16384);
          p = path @ ''/'' @ fst file;
          appended = array_of_files @
            [\<lparr>epath = p, etype = (if is_folder then ''folder'' else ''file'')\<rparr>]
      in if is_folder then
           (case get_all_files os fs depth p appended of
              Inl e \<Rightarrow> Inl e
            | Inr listed \<Rightarrow> get_all_files_loop os fs depth path files listed)
         else get_all_files_loop os fs depth path files appended)"

text \<open>The two loops of \<open>delete_folder\<close>: the exception raised, if any, and the file system.\<close>

fun delete_folder_files :: "'fs os \<Rightarrow> 'fs \<Rightarrow> entry list \<Rightarrow> pyerror option \<times> 'fs" where
  "delete_folder_files os fs [] = (None, fs)"
| "delete_folder_files os fs (file # files) =
     (if etype file = ''file'' then
        (case os_remove os fs (epath file) of
           Inl e \<Rightarrow> (Some e, fs)
         | Inr fs1 \<Rightarrow> delete_folder_files os fs1 files)
      else delete_folder_files os fs files)"

fun delete_folder_folders :: "'fs os \<Rightarrow> 'fs \<Rightarrow> entry list \<Rightarrow> pyerror option \<times> 'fs" where
  "delete_folder_folders os fs [] = (None, fs)"
| "delete_folder_folders os fs (file # files) =
     (if etype file = ''folder'' then
        (case os_rmdir os fs (epath file) of
           Inl e \<Rightarrow> (Some e, fs)
         | Inr fs1 \<Rightarrow> delete_folder_folders os fs1 files)
      else delete_folder_folders os fs files)"

definition delete_folder :: "'fs os \<Rightarrow> 'fs \<Rightarrow> nat \<Rightarrow> string \<Rightarrow> pyerror option \<times> 'fs" where
  "delete_folder os fs depth path =
     (case get_all_files os fs depth path [] of
        Inl e \<Rightarrow> (Some e, fs)
      | Inr files \<Rightarrow>
          (case delete_folder_files os fs files of
             (Some e, fs1) \<Rightarrow> (Some e, fs1)
           | (None, fs1) \<Rightarrow>
               (case delete_folder_folders os fs1 (rev files) of
                  (Some e, fs2) \<Rightarrow> (Some e, fs2)
                | (None, fs2) \<Rightarrow>
                    (case os_rmdir os fs2 path of
                       Inl e \<Rightarrow> (Some e, fs2)
                     | Inr fs3 \<Rightarrow> (None, fs3)))))"


text \<open>
  The order of removal in the words of the specification: the calls of \<open>os\<close> one after
  the other, stopping at the first that raises.
\<close>

datatype fsop = Remove string | Rmdir string

fun run_ops :: "'fs os \<Rightarrow> 'fs \<Rightarrow> fsop list \<Rightarrow> pyerror option \<times> 'fs" where
  "run_ops os fs [] = (None, fs)"
| "run_ops os fs (Remove p # ops) =
     (case os_remove os fs p of Inl e \<Rightarrow> (Some e, fs) | Inr fs1 \<Rightarrow> run_ops os fs1 ops)"
| "run_ops os fs (Rmdir p # ops) =
     (case os_rmdir os fs p of Inl e \<Rightarrow> (Some e, fs) | Inr fs1 \<Rightarrow> run_ops os fs1 ops)"

definition files_then_folders_deepest_first :: "entry list \<Rightarrow> string \<Rightarrow> fsop list" where
  "files_then_folders_deepest_first files path =
     map (\<lambda>f. Remove (epath f)) (filter (\<lambda>f. etype f = ''file'') files) @
     map (\<lambda>f. Rmdir (epath f)) (filter (\<lambda>f. etype f = ''folder'') (rev files)) @
     [Rmdir path]"

text \<open>
  A file system for the examples: every directory with its entries, the root under the
  empty path. Repeated slashes in a path count as one, so the \<open>//name\<close> that
  \<open>get_all_files\<close> builds under \<open>/\<close> is \<open>/name\<close>. Removing what is not there raises
  \<open>ENOENT\<close> (2), removing a directory that has entries \<open>ENOTEMPTY\<close> (39), removing the
  root \<open>EPERM\<close> (1).
\<close>

type_synonym dirs = "(string \<times> (string \<times> nat) list) list"

fun normpath :: "string \<Rightarrow> string" where
  "normpath (a # b # rest) =
     (if a = CHR ''/'' \<and> b = CHR ''/'' then normpath (b # rest) else a # normpath (b # rest))"
| "normpath [a] = [a]"
| "normpath [] = []"

definition unlink :: "dirs \<Rightarrow> string \<Rightarrow> bool \<Rightarrow> dirs" where
  "unlink fs p folder =
     map (\<lambda>(d, kids). (d, filter (\<lambda>(n, code). \<not> (d @ ''/'' @ n = p \<and> (code = 16384) = folder)) kids)) fs"

definition listed :: "dirs \<Rightarrow> string \<Rightarrow> bool \<Rightarrow> bool" where
  "listed fs p folder =
     list_ex (\<lambda>(d, kids). list_ex (\<lambda>(n, code). d @ ''/'' @ n = p \<and> (code = 16384) = folder) kids) fs"

definition device_os :: "dirs os" where
  "device_os =
     \<lparr>os_ilistdir = (\<lambda>fs p.
        case map_of fs (if normpath p = ''/'' then [] else normpath p) of
          None \<Rightarrow> Inl (OSError 2)
        | Some kids \<Rightarrow> Inr kids),
      os_remove = (\<lambda>fs p.
        if listed fs (normpath p) False then Inr (unlink fs (normpath p) False)
        else Inl (OSError 2)),
      os_rmdir = (\<lambda>fs p.
        if normpath p = ''/'' \<or> p = [] then Inl (OSError 1)
        else if \<not> listed fs (normpath p) True then Inl (OSError 2)
        else if map_of fs (normpath p) \<noteq> Some [] then Inl (OSError 39)
        else Inr (filter (\<lambda>(d, kids). d \<noteq> normpath p) (unlink fs (normpath p) True)))\<rparr>"

definition example_fs :: dirs where
  "example_fs =
     [([], [(''d'', 16384)]),
      (''/d'', [(''a'', 32768), (''sub'', 16384)]),
      (''/d/sub'', [(''b'', 32768)])]"

section \<open>Ordering a firmware bundle\<close>

text \<open>
  The click handlers of \<open>loadFirmwareButton\<close> and \<open>updateBtn\<close> (usb.ts, lines 331-336 and
  571-576) move the entry of \<open>/VERSION\<close> to the end of \<open>firmwareFiles\<close>;
  \<open>uploadFirmwareButton\<close> then uploads the entries in the order of the list.
\<close>

record firmwareFile =
  path :: jsstring
  content :: bytes
  folder :: jsstring

fun findIndexFrom :: "nat \<Rightarrow> ('a \<Rightarrow> bool) \<Rightarrow> 'a list \<Rightarrow> int" where
  "findIndexFrom i P [] = - 1"
| "findIndexFrom i P (x # xs) = (if P x then int i else findIndexFrom (Suc i) P xs)"

definition findIndex :: "('a \<Rightarrow> bool) \<Rightarrow> 'a list \<Rightarrow> int" where
  "findIndex P xs = findIndexFrom 0 P xs"

definition moveVersionToEnd :: "firmwareFile list \<Rightarrow> firmwareFile list" where
  "moveVersionToEnd firmwareFiles =
     (let versionIndex = findIndex (\<lambda>f. path f = js ''/VERSION'') firmwareFiles in
      if versionIndex \<noteq> - 1 then
        let versionFile = firmwareFiles ! nat versionIndex;
            spliced = take (nat versionIndex) firmwareFiles @
                      drop (nat versionIndex + 1) firmwareFiles
        in spliced @ [versionFile]
      else firmwareFiles)"

section \<open>A device that answers\<close>

text \<open>
  The arrivals when the device answers every wait of an operation and sends nothing
  else: nothing arrives during the writes and the timers of \<open>executeRaw\<close>, and each
  \<open>readUntil\<close> gets one chunk that holds its marker. \<open>executeRaw\<close> gets the output \<open>out\<close>
  of the command; the prompt and the banner are the markers themselves. The first
  await after a wait takes the empty rest of the batch the wait was answered from.
\<close>

definition executeRaw_replies :: "jsstring \<Rightarrow> jsstring \<Rightarrow> arrivals" where
  "executeRaw_replies code out = replicate (2 * ((length code + S - 1) div S)) [] @ [[Text out]]"

definition uploadFile_replies :: "jsstring \<Rightarrow> bytes \<Rightarrow> arrivals" where
  "uploadFile_replies p data =
     [[Text (js ''>>>'')], [Text (js ''raw REPL; CTRL-B to exit'')]] @
     executeRaw_replies (uploadFile_open_command p) (js ''OK'' @ [0x04, 0x04, 0x3E]) @
     concat (map (\<lambda>k. executeRaw_replies
               (uploadFile_chunk_command (slice data (k * CHUNK_SIZE) (k * CHUNK_SIZE + CHUNK_SIZE)))
               (js ''OK'' @ [0x04, 0x04, 0x3E]))
       [0..<(length data + CHUNK_SIZE - 1) div CHUNK_SIZE]) @
     executeRaw_replies (js ''f.close()'') (js ''OK'' @ [0x04, 0x04, 0x3E]) @
     [[Text (js ''>>>'')]]"



text \<open>
  \<open>answers f replies\<close>: on a session with no wait outstanding, after an answered wait,
  \<open>f\<close> completes on these replies, takes exactly them, and leaves no wait outstanding.
\<close>

definition answers :: "'a async \<Rightarrow> arrivals \<Rightarrow> bool" where
  "answers f replies \<longleftrightarrow>
     (\<forall>s rest. readingUntil s = None \<longrightarrow>
        (\<exists>x s'. f s ([] # replies @ rest) = (Fulfilled x, s', [] # rest) \<and> readingUntil s' = None))"

section \<open>States of the wait\<close>

text \<open>
  \<open>waiting s p tok\<close>: the wait for \<open>tok\<close> that created promise \<open>p\<close> is outstanding.
  \<open>idle s\<close>: no wait is outstanding and the buffer is empty.
\<close>

definition waiting :: "session \<Rightarrow> nat \<Rightarrow> jsstring \<Rightarrow> bool" where
  "waiting s p tok \<longleftrightarrow>
     readingUntil s = Some tok \<and> resolveReadingUntilPromise s = Settle p \<and>
     rejectReadingUntilPromise s = Settle p \<and> p < length (promises s) \<and>
     promises s ! p = Pending"

definition idle :: "session \<Rightarrow> bool" where
  "idle s \<longleftrightarrow> readingUntil s = None \<and> readingBuffer s = []"

text \<open>\<open>ends_idle f\<close>: whenever \<open>f\<close> completes, it leaves the session idle.\<close>

definition ends_idle :: "'a async \<Rightarrow> bool" where
  "ends_idle f \<longleftrightarrow> (\<forall>s env y s' env'. f s env = (Fulfilled y, s', env') \<longrightarrow> idle s')"

section \<open>Searching\<close>

lemma indexOfFrom_found: "indexOfFrom i s t \<noteq> - 1 \<longleftrightarrow> sublist t s"
proof (induction s arbitrary: i)
  case Nil
  show ?case by simp
next
  case (Cons c s)
  show ?case
  proof (cases "prefix t (c # s)")
    case True
    then show ?thesis by (auto simp: sublist_Cons_right)
  next
    case False
    then show ?thesis using Cons.IH [of "Suc i"] by (simp add: sublist_Cons_right)
  qed
qed

lemma indexOf_found: "indexOf s t \<noteq> - 1 \<longleftrightarrow> sublist t s"
  by (simp add: indexOf_def indexOfFrom_found)

section \<open>The wait under arriving chunks\<close>

lemma onData_idle: "readingUntil s = None \<Longrightarrow> onData s c = s"
  by (simp add: onData_def)

lemma feed_idle: "readingUntil s = None \<Longrightarrow> feed s cs = s"
  by (induction cs) (simp_all add: feed_def onData_idle)

lemma decodeChunk_cong: "decoder s' = decoder s \<Longrightarrow> decodeChunk s' c = decodeChunk s c"
  by (simp add: decodeChunk_def split: chunk.splits)

lemma onData_waiting:
  assumes "waiting s p tok"
  shows "onData s c =
     (if sublist tok (readingBuffer s @ decodeChunk s c)
      then s\<lparr>readingUntil := None, readingBuffer := [],
             resolveReadingUntilPromise := Noop, rejectReadingUntilPromise := Noop,
             promises := (promises s)[p := Resolved (readingBuffer s @ decodeChunk s c)]\<rparr>
      else s\<lparr>readingBuffer := readingBuffer s @ decodeChunk s c\<rparr>)"
  using assms
  by (simp add: waiting_def onData_def Let_def indexOf_found callResolve_def settle_def)

lemma readUntil_fresh:
  assumes "readingUntil s = None"
  shows "readUntil s tok =
     (Inr (length (promises s)),
      s\<lparr>readingBuffer := [], readingUntil := Some tok,
        resolveReadingUntilPromise := Settle (length (promises s)),
        rejectReadingUntilPromise := Settle (length (promises s)),
        promises := promises s @ [Pending]\<rparr>)"
  using assms by (simp add: readUntil_def Let_def)

lemma readUntil_waiting:
  assumes "readingUntil s = None" "readUntil s tok = (r, s1)"
  shows "r = Inr (length (promises s)) \<and> waiting s1 (length (promises s)) tok \<and>
         readingBuffer s1 = [] \<and> decoder s1 = decoder s \<and> written s1 = written s"
  using assms by (auto simp: readUntil_fresh waiting_def)

lemma feed_waiting:
  assumes "waiting s p tok"
    and "k < length cs"
    and "sublist tok (readingBuffer s @ concat (map (decodeChunk s) (take (Suc k) cs)))"
    and "\<forall>j<k. \<not> sublist tok (readingBuffer s @ concat (map (decodeChunk s) (take (Suc j) cs)))"
  shows "status (feed s cs) p =
           Resolved (readingBuffer s @ concat (map (decodeChunk s) (take (Suc k) cs)))
         \<and> idle (feed s cs)"
  using assms
proof (induction cs arbitrary: s k)
  case Nil
  then show ?case by simp
next
  case (Cons c cs)
  let ?b = "readingBuffer s @ decodeChunk s c"
  show ?case
  proof (cases k)
    case 0
    with Cons.prems have hit: "sublist tok ?b" by simp
    let ?s' = "onData s c"
    have s': "?s' = s\<lparr>readingUntil := None, readingBuffer := [],
             resolveReadingUntilPromise := Noop, rejectReadingUntilPromise := Noop,
             promises := (promises s)[p := Resolved ?b]\<rparr>"
      using onData_waiting [OF Cons.prems(1)] hit by simp
    then have "readingUntil ?s' = None" by simp
    then have "feed ?s' cs = ?s'" by (rule feed_idle)
    then have "feed s (c # cs) = ?s'" by (simp add: feed_def)
    moreover have "p < length (promises s)" using Cons.prems(1) by (simp add: waiting_def)
    ultimately show ?thesis using s' 0 by (simp add: status_def idle_def)
  next
    case (Suc k')
    with Cons.prems(4) have miss: "\<not> sublist tok ?b" by force
    let ?s' = "onData s c"
    have s': "?s' = s\<lparr>readingBuffer := ?b\<rparr>"
      using onData_waiting [OF Cons.prems(1)] miss by simp
    have w: "waiting ?s' p tok" using Cons.prems(1) s' by (simp add: waiting_def)
    have d: "decodeChunk ?s' = decodeChunk s"
      by (rule ext, rule decodeChunk_cong) (simp add: s')
    have 1: "k' < length cs" using Cons.prems(2) Suc by simp
    have 2: "sublist tok (readingBuffer ?s' @ concat (map (decodeChunk ?s') (take (Suc k') cs)))"
      using Cons.prems(3) Suc s' d by simp
    have 3: "\<forall>j<k'. \<not> sublist tok (readingBuffer ?s' @ concat (map (decodeChunk ?s') (take (Suc j) cs)))"
    proof (intro allI impI)
      fix j assume "j < k'"
      then have "Suc j < k" using Suc by simp
      with Cons.prems(4) have "\<not> sublist tok (readingBuffer s @ concat (map (decodeChunk s) (take (Suc (Suc j)) (c # cs))))"
        by blast
      then show "\<not> sublist tok (readingBuffer ?s' @ concat (map (decodeChunk ?s') (take (Suc j) cs)))"
        using s' d by simp
    qed
    from Cons.IH [OF w 1 2 3] show ?thesis using s' d Suc by (simp add: feed_def)
  qed
qed

lemma first_containing:
  assumes "cs \<noteq> []" and "sublist M (concat (map f cs))"
  shows "\<exists>k<length cs. sublist M (concat (map f (take (Suc k) cs))) \<and>
           (\<forall>j<k. \<not> sublist M (concat (map f (take (Suc j) cs))))"
proof -
  let ?P = "\<lambda>k. k < length cs \<and> sublist M (concat (map f (take (Suc k) cs)))"
  have "?P (length cs - 1)" using assms by simp
  then have ex: "\<exists>k. ?P k" ..
  define k where "k = (LEAST k. ?P k)"
  have Pk: "?P k" unfolding k_def using ex by (rule LeastI_ex)
  have least: "\<And>j. j < k \<Longrightarrow> \<not> ?P j" unfolding k_def by (rule not_less_Least)
  have "\<forall>j<k. \<not> sublist M (concat (map f (take (Suc j) cs)))"
  proof (intro allI impI)
    fix j assume jk: "j < k"
    then have "j < length cs" using Pk by simp
    with least [OF jk] show "\<not> sublist M (concat (map f (take (Suc j) cs)))" by simp
  qed
  with Pk show ?thesis by blast
qed

text \<open>
  C1, as amended. A wait for \<open>M\<close> registered on a session with no wait outstanding, then
  a nonempty sequence of chunks whose decoded concatenation contains \<open>M\<close>: the promise is
  resolved with the concatenation of all chunks up to and including the first chunk
  after which the accumulated text contains \<open>M\<close>, however the chunks split \<open>M\<close>. The
  whole of that chunk is included, also what follows \<open>M\<close> in it.
\<close>

theorem readUntil_resolves_at_completing_chunk:
  assumes "readingUntil s = None" and "cs \<noteq> []"
    and "sublist M (concat (map (decodeChunk s) cs))"
  shows "\<exists>p s1 k. readUntil s M = (Inr p, s1) \<and> k < length cs \<and>
           status (feed s1 cs) p = Resolved (concat (map (decodeChunk s) (take (Suc k) cs))) \<and>
           sublist M (concat (map (decodeChunk s) (take (Suc k) cs))) \<and>
           (\<forall>j<k. \<not> sublist M (concat (map (decodeChunk s) (take (Suc j) cs))))"
proof -
  obtain r s1 where rs: "readUntil s M = (r, s1)" by (cases "readUntil s M")
  let ?p = "length (promises s)"
  from readUntil_waiting [OF assms(1) rs]
  have r: "r = Inr ?p" and w: "waiting s1 ?p M" and b: "readingBuffer s1 = []"
    and d: "decoder s1 = decoder s" by simp_all
  have dd: "decodeChunk s1 = decodeChunk s" by (rule ext, rule decodeChunk_cong) (rule d)
  from first_containing [OF assms(2,3)] obtain k where k: "k < length cs"
    and hit: "sublist M (concat (map (decodeChunk s) (take (Suc k) cs)))"
    and first: "\<forall>j<k. \<not> sublist M (concat (map (decodeChunk s) (take (Suc j) cs)))"
    by blast
  have "status (feed s1 cs) ?p = Resolved (readingBuffer s1 @ concat (map (decodeChunk s1) (take (Suc k) cs)))"
    using feed_waiting [OF w k, unfolded b dd] hit first by (simp add: b dd)
  then have "status (feed s1 cs) ?p = Resolved (concat (map (decodeChunk s) (take (Suc k) cs)))"
    by (simp add: b dd)
  with rs r k hit first show ?thesis by blast
qed

text \<open>The marker \<open>>>>\<close> split over two chunks, one of them bytes.\<close>

theorem readUntil_resolves_at_completing_chunk_witness:
  "readingUntil (newSession decodeAscii True) = None \<and>
   [Text (js ''ab>''), Bytes [0x3E, 0x3E, 0x78], Text (js ''y'')] \<noteq> [] \<and>
   (\<exists>p s1 k. readUntil (newSession decodeAscii True) (js ''>>>'') = (Inr p, s1) \<and>
      status (feed s1 [Text (js ''ab>''), Bytes [0x3E, 0x3E, 0x78], Text (js ''y'')]) p =
        Resolved (concat (map (decodeChunk (newSession decodeAscii True))
          (take (Suc k) [Text (js ''ab>''), Bytes [0x3E, 0x3E, 0x78], Text (js ''y'')]))))"
proof -
  let ?s = "newSession decodeAscii True"
  let ?cs = "[Text (js ''ab>''), Bytes [0x3E, 0x3E, 0x78], Text (js ''y'')]"
  have 1: "readingUntil ?s = None" by (simp add: newSession_def)
  have 2: "?cs \<noteq> []" by simp
  have "concat (map (decodeChunk ?s) ?cs) = js ''ab'' @ js ''>>>'' @ js ''xy''"
    by (simp add: decodeChunk_def newSession_def decodeAscii_def js_def)
  then have 3: "sublist (js ''>>>'') (concat (map (decodeChunk ?s) ?cs))"
    by (simp only: sublist_appendI)
  from readUntil_resolves_at_completing_chunk [OF 1 2 3] 1 show ?thesis by blast
qed

text \<open>
  C1 as stated fails: the chunk \<open>a>b\<close> completes the marker \<open>>\<close>, and the wait resolves
  with \<open>a>b\<close>, not with the text up to and including the marker, \<open>a>\<close>.
\<close>

theorem readUntil_trailing_bytes_counterexample:
  "status (feed (snd (readUntil (newSession decodeAscii True) (js ''>''))) [Text (js ''a>b'')]) 0
     = Resolved (js ''a>b'') \<and>
   take (nat (indexOf (js ''a>b'') (js ''>'')) + length (js ''>'')) (js ''a>b'') = js ''a>'' \<and>
   js ''a>b'' \<noteq> js ''a>''"
  by (simp add: status_def feed_def readUntil_def newSession_def onData_def decodeChunk_def
      indexOf_def js_def callResolve_def settle_def Let_def)

text \<open>
  C3. While a wait is outstanding, \<open>readUntil\<close> returns a promise already rejected with
  the error \<open>Already running "read until"\<close> and leaves the session as it was: marker,
  buffer, callbacks and promises; so whatever chunks arrive later settle every promise
  as they would have without the call.
\<close>

theorem readUntil_while_waiting_fails:
  assumes "readingUntil s \<noteq> None"
  shows "readUntil s token = (Inl alreadyRunning, s) \<and>
         (\<forall>cs p. status (feed (snd (readUntil s token)) cs) p = status (feed s cs) p)"
  using assms by (simp add: readUntil_def)

theorem readUntil_while_waiting_fails_witness:
  "readingUntil (snd (readUntil (newSession decodeAscii True) (js ''>>>''))) \<noteq> None \<and>
   readUntil (snd (readUntil (newSession decodeAscii True) (js ''>>>''))) (js ''OK'')
     = (Inl alreadyRunning, snd (readUntil (newSession decodeAscii True) (js ''>>>'')))"
proof -
  have 1: "readingUntil (snd (readUntil (newSession decodeAscii True) (js ''>>>''))) \<noteq> None"
    by (simp add: readUntil_def newSession_def Let_def)
  from readUntil_while_waiting_fails [OF 1] 1 show ?thesis by blast
qed

section \<open>The bundle order\<close>

lemma findIndexFrom_eq:
  "findIndexFrom i P xs =
     (if \<exists>x\<in>set xs. P x then int (i + length (takeWhile (\<lambda>x. \<not> P x) xs)) else - 1)"
  by (induction xs arbitrary: i) auto

lemma splice_at_takeWhile:
  assumes "\<exists>x\<in>set xs. P x"
  shows "xs ! length (takeWhile (\<lambda>x. \<not> P x) xs) = hd (dropWhile (\<lambda>x. \<not> P x) xs) \<and>
         drop (Suc (length (takeWhile (\<lambda>x. \<not> P x) xs))) xs = tl (dropWhile (\<lambda>x. \<not> P x) xs) \<and>
         take (length (takeWhile (\<lambda>x. \<not> P x) xs)) xs = takeWhile (\<lambda>x. \<not> P x) xs \<and>
         dropWhile (\<lambda>x. \<not> P x) xs \<noteq> [] \<and> P (hd (dropWhile (\<lambda>x. \<not> P x) xs))"
  using assms
proof (induction xs)
  case Nil
  then show ?case by simp
next
  case (Cons x xs)
  then show ?case by (cases "P x") auto
qed

text \<open>
  C9. If the bundle has an entry at \<open>/VERSION\<close>, the ordering step takes the first
  such entry out of the list and appends it: every other entry, in its original order,
  stands before it, wherever the entry stood; the upload loop walks the list in order.
\<close>

theorem moveVersionToEnd_places_version_last:
  assumes "\<exists>f\<in>set firmwareFiles. path f = js ''/VERSION''"
  shows "\<exists>before versionFile after.
           firmwareFiles = before @ versionFile # after \<and>
           path versionFile = js ''/VERSION'' \<and>
           (\<forall>g\<in>set before. path g \<noteq> js ''/VERSION'') \<and>
           moveVersionToEnd firmwareFiles = before @ after @ [versionFile] \<and>
           last (moveVersionToEnd firmwareFiles) = versionFile"
proof -
  let ?P = "\<lambda>f. path f = js ''/VERSION''"
  let ?before = "takeWhile (\<lambda>f. \<not> ?P f) firmwareFiles"
  let ?rest = "dropWhile (\<lambda>f. \<not> ?P f) firmwareFiles"
  from splice_at_takeWhile [of firmwareFiles ?P] assms
  have nth: "firmwareFiles ! length ?before = hd ?rest"
    and dr: "drop (Suc (length ?before)) firmwareFiles = tl ?rest"
    and tk: "take (length ?before) firmwareFiles = ?before"
    and ne: "?rest \<noteq> []" and P: "?P (hd ?rest)" by simp_all
  have idx: "findIndex ?P firmwareFiles = int (length ?before)"
    using assms by (simp add: findIndex_def findIndexFrom_eq)
  have mv: "moveVersionToEnd firmwareFiles = ?before @ tl ?rest @ [hd ?rest]"
    by (simp add: moveVersionToEnd_def idx Let_def nth dr tk)
  have split: "firmwareFiles = ?before @ hd ?rest # tl ?rest"
    using ne by (metis takeWhile_dropWhile_id list.collapse)
  have pre: "\<forall>g\<in>set ?before. path g \<noteq> js ''/VERSION''"
    by (auto dest: set_takeWhileD)
  have "last (moveVersionToEnd firmwareFiles) = hd ?rest" by (simp add: mv)
  with split P pre mv show ?thesis by blast
qed

theorem moveVersionToEnd_places_version_last_witness:
  "(\<exists>f\<in>set [\<lparr>path = js ''/VERSION'', content = [0x31], folder = js ''/''\<rparr>,
               \<lparr>path = js ''/main.py'', content = [], folder = js ''/''\<rparr>].
      path f = js ''/VERSION'') \<and>
   moveVersionToEnd [\<lparr>path = js ''/VERSION'', content = [0x31], folder = js ''/''\<rparr>,
                     \<lparr>path = js ''/main.py'', content = [], folder = js ''/''\<rparr>]
     = [\<lparr>path = js ''/main.py'', content = [], folder = js ''/''\<rparr>,
        \<lparr>path = js ''/VERSION'', content = [0x31], folder = js ''/''\<rparr>]"
proof -
  let ?v = "\<lparr>path = js ''/VERSION'', content = [0x31], folder = js ''/''\<rparr>"
  let ?m = "\<lparr>path = js ''/main.py'', content = [], folder = js ''/''\<rparr>"
  have h: "\<exists>f\<in>set [?v, ?m]. path f = js ''/VERSION''" by simp
  have ne: "path ?m \<noteq> js ''/VERSION''" by (simp add: js_def)
  from moveVersionToEnd_places_version_last [OF h]
  obtain before versionFile after where
    sp: "[?v, ?m] = before @ versionFile # after" and
    pv: "path versionFile = js ''/VERSION''" and
    nb: "\<forall>g\<in>set before. path g \<noteq> js ''/VERSION''" and
    mv: "moveVersionToEnd [?v, ?m] = before @ after @ [versionFile]" by blast
  have "before = []"
  proof (cases before)
    case Nil then show ?thesis .
  next
    case (Cons b bs)
    with sp have "b = ?v" by simp
    with nb Cons show ?thesis by simp
  qed
  with sp have "versionFile = ?v" "after = [?m]" by simp_all
  with mv \<open>before = []\<close> h show ?thesis by simp
qed

section \<open>The disconnect notification\<close>

lemma onData_keeps_notification:
  "notified (onData s v) = notified s \<and> reading (onData s v) = reading s \<and>
   onDisconnect (onData s v) = onDisconnect s \<and> isConnected (onData s v) = isConnected s"
  by (simp add: onData_def callResolve_def Let_def split: option.splits callback.splits)

lemma step_keeps_callback: "onDisconnect (step s e) = onDisconnect s"
proof (cases e)
  case (Read r)
  then show ?thesis
    by (cases r)
       (simp_all add: readForeverAndReport_step_def callOnDisconnect_def onData_keeps_notification)
next
  case Close
  then show ?thesis
    by (simp add: close_def readForeverAndReport_step_def callOnDisconnect_def Let_def)
next
  case SerialDisconnect
  then show ?thesis by (simp add: serialDisconnect_def callOnDisconnect_def)
qed

lemma step_counts:
  assumes "onDisconnect s"
  shows "notified (step s e) = notified s + notifies (reading s) e \<and>
         reading (step s e) = still_reading (reading s) e"
proof (cases e)
  case (Read r)
  with assms show ?thesis
    by (cases r)
       (simp_all add: readForeverAndReport_step_def callOnDisconnect_def onData_keeps_notification)
next
  case Close
  with assms show ?thesis
    by (simp add: close_def readForeverAndReport_step_def callOnDisconnect_def Let_def)
next
  case SerialDisconnect
  with assms show ?thesis by (simp add: serialDisconnect_def callOnDisconnect_def)
qed

lemma lifetime_counts:
  assumes "onDisconnect s"
  shows "notified (lifetime s evs) = notified s + notifications (reading s) evs"
  using assms
proof (induction evs arbitrary: s)
  case Nil
  then show ?case by (simp add: lifetime_def)
next
  case (Cons e evs)
  from step_counts [OF Cons.prems, of e]
  have n: "notified (step s e) = notified s + notifies (reading s) e"
    and r: "reading (step s e) = still_reading (reading s) e" by simp_all
  have cb: "onDisconnect (step s e)" using Cons.prems by (simp add: step_keeps_callback)
  have "lifetime s (e # evs) = lifetime (step s e) evs" by (simp add: lifetime_def)
  then have "notified (lifetime s (e # evs)) =
      notified (step s e) + notifications (reading (step s e)) evs"
    using Cons.IH [OF cb] by simp
  then show ?case by (simp only: n r notifications.simps add.assoc)
qed

text \<open>
  C7, as amended. With a callback registered, over any lifetime of the session (chunks,
  end of stream or error seen by the read loop, calls of \<open>close\<close>, disconnect events of
  the port) the notification is invoked once for the end of the stream if the loop is
  still reading, not at all for a read error, which only ends the loop, once for every
  disconnect event, and once by every call of \<open>close\<close> itself, after the one of the
  loop on the cancelled reader if the loop was still reading: closing a live session
  notifies twice, closing one whose loop has ended notifies once more.
\<close>

theorem close_notifies_again:
  assumes "onDisconnect s"
  shows "notified (lifetime s evs) = notified s + notifications (reading s) evs \<and>
         notified (close s) = notified s + (if reading s then 2 else 1) \<and>
         (reading s \<longrightarrow>
            notified (readForeverAndReport_step s Done) = notified s + 1 \<and>
            \<not> reading (readForeverAndReport_step s Done)) \<and>
         (reading s \<longrightarrow>
            notified (readForeverAndReport_step s Failed) = notified s \<and>
            \<not> reading (readForeverAndReport_step s Failed) \<and>
            isConnected (readForeverAndReport_step s Failed) = isConnected s) \<and>
         notified (readForeverAndReport_step s (Value v)) = notified s \<and>
         (\<not> reading s \<longrightarrow> readForeverAndReport_step s r = s) \<and>
         notified (serialDisconnect s) = notified s + 1 \<and>
         \<not> isConnected (close s) \<and> \<not> reading (close s)"
proof -
  have 1: "notified (lifetime s evs) = notified s + notifications (reading s) evs"
    using assms by (rule lifetime_counts)
  have 2: "notified (readForeverAndReport_step s (Value v)) = notified s"
    by (simp add: readForeverAndReport_step_def onData_keeps_notification)
  have 3: "notified (close s) = notified s + (if reading s then 2 else 1) \<and>
         (reading s \<longrightarrow>
            notified (readForeverAndReport_step s Done) = notified s + 1 \<and>
            \<not> reading (readForeverAndReport_step s Done)) \<and>
         (reading s \<longrightarrow>
            notified (readForeverAndReport_step s Failed) = notified s \<and>
            \<not> reading (readForeverAndReport_step s Failed) \<and>
            isConnected (readForeverAndReport_step s Failed) = isConnected s) \<and>
         (\<not> reading s \<longrightarrow> readForeverAndReport_step s r = s) \<and>
         notified (serialDisconnect s) = notified s + 1 \<and>
         \<not> isConnected (close s) \<and> \<not> reading (close s)"
    using assms
    by (simp add: close_def readForeverAndReport_step_def callOnDisconnect_def
        serialDisconnect_def Let_def)
  from 1 2 3 show ?thesis by simp
qed

theorem close_notifies_again_witness:
  "onDisconnect (newSession decodeAscii True) \<and>
   notified (close (newSession decodeAscii True)) = 2 \<and>
   notified (lifetime (newSession decodeAscii True) [Read Done]) = 1 \<and>
   notified (lifetime (newSession decodeAscii True) [Read Failed]) = 0 \<and>
   notified (lifetime (newSession decodeAscii True) [SerialDisconnect, Read Done, Close]) = 3"
proof -
  have h: "onDisconnect (newSession decodeAscii True)" by (simp add: newSession_def)
  have r: "reading (newSession decodeAscii True)" "notified (newSession decodeAscii True) = 0"
    by (simp_all add: newSession_def)
  note T = close_notifies_again [OF h]
  from T [of "[]"] have a: "notified (close (newSession decodeAscii True)) = 2"
    using r by simp
  from T [of "[Read Done]"]
  have b: "notified (lifetime (newSession decodeAscii True) [Read Done]) = 1" using r by simp
  from T [of "[Read Failed]"]
  have c: "notified (lifetime (newSession decodeAscii True) [Read Failed]) = 0" using r by simp
  from T [of "[SerialDisconnect, Read Done, Close]"]
  have d: "notified (lifetime (newSession decodeAscii True) [SerialDisconnect, Read Done, Close]) = 3"
    using r by simp
  from h a b c d show ?thesis by simp
qed

text \<open>
  C7 as stated fails: a local \<open>close\<close> of a live session invokes the notification twice,
  and so does a \<open>close\<close> after the loop has seen the end of the stream.
\<close>

theorem close_notifies_twice_counterexample:
  "notified (lifetime (newSession decodeAscii True) [Close]) = 2 \<and>
   notified (lifetime (newSession decodeAscii True) [Read Done, Close]) = 2"
  by (simp add: lifetime_def close_def readForeverAndReport_step_def callOnDisconnect_def
      newSession_def Let_def)

section \<open>Paths in commands\<close>

text \<open>
  C5. Only \<open>uploadFile\<close> escapes the path. At the path \<open>a'b\<close> the command of
  \<open>createFolder\<close>, and likewise those of \<open>removeFolder\<close>, \<open>createFile\<close>, \<open>loadFile\<close> and
  \<open>downloadFile\<close>, carries the quote as it is, which ends the string literal of the
  command after \<open>a\<close>; \<open>uploadFile\<close> sends \<open>a\'b\<close>.
\<close>

theorem commands_interpolate_raw_path:
  "createFolder_command (js ''a'b'') = js ''import os;os.mkdir('a'b')'' \<and>
   removeFolder_command (js ''a'b'') = js ''delete_folder('a'b')'' \<and>
   createFile_command (js ''a'b'') = js ''f=open('a'b', 'w');f.close()'' \<and>
   prefix (js ''with open('a'b','r') as f:'') (loadFile_command (js ''a'b'')) \<and>
   prefix (js ''with open('a'b','rb') as f:'') (downloadFile_command (js ''a'b'')) \<and>
   prefix (js ''f=open('a'' @ [0x5C] @ js '''b','wb')'') (uploadFile_open_command (js ''a'b''))"
  by (simp add: createFolder_command_def removeFolder_command_def createFile_command_def
      loadFile_command_def downloadFile_command_def uploadFile_open_command_def
      escapeQuotes_def quote_def js_def)

section \<open>Recursive delete on the device\<close>

lemma run_ops_append:
  "run_ops os fs (a @ b) =
     (case run_ops os fs a of (Some e, fs1) \<Rightarrow> (Some e, fs1) | (None, fs1) \<Rightarrow> run_ops os fs1 b)"
proof (induction a arbitrary: fs)
  case Nil
  show ?case by simp
next
  case (Cons x a)
  show ?case by (cases x) (simp_all add: Cons.IH split: sum.splits)
qed

lemma delete_folder_files_run:
  "delete_folder_files os fs files =
     run_ops os fs (map (\<lambda>f. Remove (epath f)) (filter (\<lambda>f. etype f = ''file'') files))"
  by (induction files arbitrary: fs) (simp_all split: sum.splits)

lemma delete_folder_folders_run:
  "delete_folder_folders os fs files =
     run_ops os fs (map (\<lambda>f. Rmdir (epath f)) (filter (\<lambda>f. etype f = ''folder'') files))"
  by (induction files arbitrary: fs) (simp_all split: sum.splits)

lemma run_ops_single_rmdir:
  "run_ops os fs [Rmdir p] = (case os_rmdir os fs p of Inl e \<Rightarrow> (Some e, fs) | Inr fs1 \<Rightarrow> (None, fs1))"
  by (simp split: sum.splits)

lemma delete_folder_run:
  "delete_folder os fs depth dir =
     (case get_all_files os fs depth dir [] of
        Inl e \<Rightarrow> (Some e, fs)
      | Inr files \<Rightarrow> run_ops os fs (files_then_folders_deepest_first files dir))"
proof (cases "get_all_files os fs depth dir []")
  case (Inl e)
  then show ?thesis by (simp add: delete_folder_def)
next
  case (Inr files)
  obtain r1 fs1 where a: "delete_folder_files os fs files = (r1, fs1)"
    by (cases "delete_folder_files os fs files")
  obtain r2 fs2 where b: "delete_folder_folders os fs1 (rev files) = (r2, fs2)"
    by (cases "delete_folder_folders os fs1 (rev files)")
  show ?thesis
    using a b Inr
    by (simp add: delete_folder_def files_then_folders_deepest_first_def run_ops_append
        delete_folder_files_run [symmetric] delete_folder_folders_run [symmetric]
        split: option.splits sum.splits)
qed

lemma get_all_files_appends:
  "get_all_files os fs depth dir acc = Inr r \<Longrightarrow> prefix acc r"
  "get_all_files_loop os fs depth dir files acc = Inr r \<Longrightarrow> prefix acc r"
proof (induction os fs depth dir acc and os fs depth dir files acc arbitrary: r and r
    rule: get_all_files_get_all_files_loop.induct)
  case (1 os fs dir array_of_files)
  then show ?case by simp
next
  case (2 os fs depth dir array_of_files)
  then show ?case by (auto split: sum.splits)
next
  case (3 os fs depth dir array_of_files)
  then show ?case by simp
next
  case (4 os fs depth dir entry files array_of_files)
  let ?folder = "snd entry = 16384"
  let ?p = "dir @ ''/'' @ fst entry"
  let ?app = "array_of_files @ [\<lparr>epath = ?p, etype = (if ?folder then ''folder'' else ''file'')\<rparr>]"
  show ?case
  proof (cases ?folder)
    case True
    with "4.prems" obtain listed where
      l: "get_all_files os fs depth ?p ?app = Inr listed" and
      rest: "get_all_files_loop os fs depth dir files listed = Inr r"
      by (auto simp: Let_def split: sum.splits)
    from "4.IH"(1) [OF refl refl refl True l] have "prefix ?app listed" .
    moreover from "4.IH"(2) [OF refl refl refl True l rest] have "prefix listed r" .
    ultimately have "prefix ?app r" by (rule prefix_order.trans)
    then show ?thesis by (rule append_prefixD)
  next
    case False
    with "4.prems" have rest: "get_all_files_loop os fs depth dir files ?app = Inr r"
      by (simp add: Let_def)
    from "4.IH"(3) [OF refl refl refl False rest] have "prefix ?app r" .
    then show ?thesis by (rule append_prefixD)
  qed
qed



lemma folders_deepest_first:
  assumes "etype d = ''folder''"
  shows "files_then_folders_deepest_first (before @ d # after) dir =
           map (\<lambda>f. Remove (epath f)) (filter (\<lambda>f. etype f = ''file'') (before @ after)) @
           map (\<lambda>f. Rmdir (epath f)) (filter (\<lambda>f. etype f = ''folder'') (rev after)) @
           Rmdir (epath d) #
           map (\<lambda>f. Rmdir (epath f)) (filter (\<lambda>f. etype f = ''folder'') (rev before)) @
           [Rmdir dir]"
  using assms by (simp add: files_then_folders_deepest_first_def)




lemma folder_after_its_subtree:
  "files_then_folders_deepest_first
     (before @ \<lparr>epath = p, etype = ''folder''\<rparr> # inside @ others) dir =
   map (\<lambda>f. Remove (epath f)) (filter (\<lambda>f. etype f = ''file'') (before @ inside @ others)) @
   map (\<lambda>f. Rmdir (epath f)) (filter (\<lambda>f. etype f = ''folder'') (rev others)) @
   map (\<lambda>f. Rmdir (epath f)) (filter (\<lambda>f. etype f = ''folder'') (rev inside)) @
   Rmdir p #
   map (\<lambda>f. Rmdir (epath f)) (filter (\<lambda>f. etype f = ''folder'') (rev before)) @
   [Rmdir dir]"
  by (simp add: files_then_folders_deepest_first_def)

text \<open>
  A directory \<open>/d\<close> with a file and a folder that holds a file: the listing, and the
  file system left, which is the empty root. On a path that is absent the listing
  raises and nothing is removed. On the root, the contents are removed and then
  \<open>os.rmdir('/')\<close> raises.
\<close>

lemma example_listing:
  "get_all_files device_os example_fs 3 ''/d'' [] = Inr
     [\<lparr>epath = ''/d/a'', etype = ''file''\<rparr>, \<lparr>epath = ''/d/sub'', etype = ''folder''\<rparr>,
      \<lparr>epath = ''/d/sub/b'', etype = ''file''\<rparr>]"
  by (simp add: numeral_3_eq_3 device_os_def example_fs_def Let_def)

lemma delete_folder_example:
  "delete_folder device_os example_fs 3 ''/d'' = (None, [([], [])])"
proof -
  have plan: "files_then_folders_deepest_first
     [\<lparr>epath = ''/d/a'', etype = ''file''\<rparr>, \<lparr>epath = ''/d/sub'', etype = ''folder''\<rparr>,
      \<lparr>epath = ''/d/sub/b'', etype = ''file''\<rparr>] ''/d''
     = [Remove ''/d/a'', Remove ''/d/sub/b'', Rmdir ''/d/sub'', Rmdir ''/d'']"
    by (simp add: files_then_folders_deepest_first_def)
  have run: "run_ops device_os example_fs
       [Remove ''/d/a'', Remove ''/d/sub/b'', Rmdir ''/d/sub'', Rmdir ''/d''] = (None, [([], [])])"
    by (simp add: device_os_def example_fs_def listed_def unlink_def)
  show ?thesis by (simp only: delete_folder_run example_listing plan run sum.case)
qed

lemma delete_folder_absent_path:
  "delete_folder device_os example_fs 3 ''/gone'' = (Some (OSError 2), example_fs)"
  by (simp add: delete_folder_def numeral_3_eq_3 device_os_def example_fs_def)


lemma delete_folder_root_raises:
  "delete_folder device_os [([], [])] 3 ''/'' = (Some (OSError 1), [([], [])])"
  by (simp add: delete_folder_def numeral_3_eq_3 device_os_def)





section \<open>Awaiting\<close>

lemma written_onData: "written (onData s c) = written s"
  by (simp add: onData_def callResolve_def Let_def split: option.splits callback.splits)

lemma decoder_onData: "decoder (onData s c) = decoder s"
  by (simp add: onData_def callResolve_def Let_def split: option.splits callback.splits)

lemma written_feed: "written (feed s cs) = written s"
  unfolding feed_def by (induction cs arbitrary: s) (simp_all add: written_onData)

lemma decoder_feed: "decoder (feed s cs) = decoder s"
  unfolding feed_def by (induction cs arbitrary: s) (simp_all add: decoder_onData)

lemma arrive_eq:
  "arrive s env = ((case env of [] \<Rightarrow> s | b # bs \<Rightarrow> feed s b), drop 1 env)"
  by (cases env) simp_all

lemma arrive_facts:
  assumes "arrive s env = (s', env')"
  shows "written s' = written s" "decoder s' = decoder s" "env' = drop 1 env"
    "readingUntil s = None \<Longrightarrow> s' = s"
  using assms by (auto simp: arrive_eq written_feed decoder_feed feed_idle split: list.splits)

lemma awaitPromise_settled:
  "status s p \<noteq> Pending \<Longrightarrow> awaitPromise p s env = (outcome (status s p), s, env)"
proof (cases env)
  case Nil
  then show ?thesis by simp
next
  case (Cons b bs)
  assume "status s p \<noteq> Pending"
  with Cons show ?thesis by (cases b) simp_all
qed

lemma waiting_status: "waiting s p tok \<Longrightarrow> status s p = Pending"
  by (simp add: waiting_def status_def)

lemma awaitPromise_waiting:
  assumes "waiting s p tok" and "awaitPromise p s env = (c, s', env')"
  shows "written s' = written s \<and> decoder s' = decoder s \<and>
         (case c of
            Fulfilled r \<Rightarrow>
              idle s' \<and>
              (\<exists>used. concat env = used @ concat env' \<and> used \<noteq> [] \<and>
                 r = readingBuffer s @ concat (map (decodeChunk s) used) \<and>
                 sublist tok r \<and>
                 (\<forall>u. strict_prefix u used \<and> u \<noteq> [] \<longrightarrow>
                    \<not> sublist tok (readingBuffer s @ concat (map (decodeChunk s) u))))
          | Thrown e \<Rightarrow> False
          | Hung \<Rightarrow>
              env' = [] \<and> waiting s' p tok \<and>
              (\<forall>u. prefix u (concat env) \<and> u \<noteq> [] \<longrightarrow>
                 \<not> sublist tok (readingBuffer s @ concat (map (decodeChunk s) u))))"
  using assms
proof (induction p s env rule: awaitPromise.induct)
  case (1 p s)
  then show ?case by (simp add: waiting_status outcome_def)
next
  case (2 p s bs)
  from "2.prems"(1) have st: "status s p = Pending" by (rule waiting_status)
  with "2.prems"(2) have "awaitPromise p s bs = (c, s', env')" by simp
  from "2.IH" [OF _ "2.prems"(1) this] st show ?case by (cases c) simp_all
next
  case (3 p s x cs bs)
  from "3.prems"(1) have st: "status s p = Pending" by (rule waiting_status)
  let ?b = "readingBuffer s @ decodeChunk s x"
  let ?s1 = "onData s x"
  from "3.prems"(2) st have run: "awaitPromise p ?s1 (cs # bs) = (c, s', env')" by simp
  show ?case
  proof (cases "sublist tok ?b")
    case True
    have s1: "?s1 = s\<lparr>readingUntil := None, readingBuffer := [],
             resolveReadingUntilPromise := Noop, rejectReadingUntilPromise := Noop,
             promises := (promises s)[p := Resolved ?b]\<rparr>"
      using onData_waiting [OF "3.prems"(1)] True by simp
    have pl: "p < length (promises s)" using "3.prems"(1) by (simp add: waiting_def)
    have st1: "status ?s1 p = Resolved ?b" using s1 pl by (simp add: status_def)
    then have "awaitPromise p ?s1 (cs # bs) = (Fulfilled ?b, ?s1, cs # bs)"
      using awaitPromise_settled [of ?s1 p "cs # bs"] by (simp add: outcome_def)
    with run have c: "c = Fulfilled ?b" and s': "s' = ?s1" and env': "env' = cs # bs" by simp_all
    have "idle ?s1" using s1 by (simp add: idle_def)
    moreover have "concat ((x # cs) # bs) = [x] @ concat (cs # bs)" by simp
    moreover have "\<forall>u. strict_prefix u [x] \<and> u \<noteq> [] \<longrightarrow>
        \<not> sublist tok (readingBuffer s @ concat (map (decodeChunk s) u))"
      by (auto simp: strict_prefix_def prefix_Cons)
    ultimately show ?thesis using c s' env' True
      by (auto simp: written_onData decoder_onData intro!: exI [of _ "[x]"])
  next
    case False
    have s1: "?s1 = s\<lparr>readingBuffer := ?b\<rparr>"
      using onData_waiting [OF "3.prems"(1)] False by simp
    have w1: "waiting ?s1 p tok" using "3.prems"(1) s1 by (simp add: waiting_def)
    have d: "decodeChunk ?s1 = decodeChunk s"
      by (rule ext, rule decodeChunk_cong) (simp add: s1)
    have b1: "readingBuffer ?s1 = ?b" using s1 by simp
    note IH = "3.IH" [OF _ w1 run, unfolded d b1]
    have IH': "written s' = written ?s1 \<and> decoder s' = decoder ?s1 \<and>
         (case c of
            Fulfilled r \<Rightarrow>
              idle s' \<and>
              (\<exists>used. concat (cs # bs) = used @ concat env' \<and> used \<noteq> [] \<and>
                 r = ?b @ concat (map (decodeChunk s) used) \<and>
                 sublist tok r \<and>
                 (\<forall>u. strict_prefix u used \<and> u \<noteq> [] \<longrightarrow>
                    \<not> sublist tok (?b @ concat (map (decodeChunk s) u))))
          | Thrown e \<Rightarrow> False
          | Hung \<Rightarrow>
              env' = [] \<and> waiting s' p tok \<and>
              (\<forall>u. prefix u (concat (cs # bs)) \<and> u \<noteq> [] \<longrightarrow>
                 \<not> sublist tok (?b @ concat (map (decodeChunk s) u))))"
      using IH st by simp
    show ?thesis
    proof (cases c)
      case (Fulfilled r)
      with IH' obtain used where
        u1: "concat (cs # bs) = used @ concat env'" and u2: "used \<noteq> []" and
        u3: "r = ?b @ concat (map (decodeChunk s) used)" and u4: "sublist tok r" and
        u5: "\<forall>u. strict_prefix u used \<and> u \<noteq> [] \<longrightarrow>
                    \<not> sublist tok (?b @ concat (map (decodeChunk s) u))"
        and i: "idle s'" by auto
      have m: "\<forall>u. strict_prefix u (x # used) \<and> u \<noteq> [] \<longrightarrow>
                 \<not> sublist tok (readingBuffer s @ concat (map (decodeChunk s) u))"
      proof (intro allI impI)
        fix u assume a: "strict_prefix u (x # used) \<and> u \<noteq> []"
        then obtain u' where u: "u = x # u'" and sp: "strict_prefix u' used"
          by (cases u) (auto simp: strict_prefix_def)
        show "\<not> sublist tok (readingBuffer s @ concat (map (decodeChunk s) u))"
        proof (cases "u' = []")
          case True
          with u False show ?thesis by simp
        next
          case False
          with u5 sp have "\<not> sublist tok (?b @ concat (map (decodeChunk s) u'))" by blast
          with u show ?thesis by simp
        qed
      qed
      have "concat ((x # cs) # bs) = (x # used) @ concat env'" using u1 by simp
      moreover have "r = readingBuffer s @ concat (map (decodeChunk s) (x # used))"
        using u3 by simp
      ultimately show ?thesis using Fulfilled IH' i u4 m
        by (auto simp: written_onData decoder_onData intro!: exI [of _ "x # used"])
    next
      case (Thrown e)
      with IH' show ?thesis by simp
    next
      case Hung
      with IH' have h: "\<forall>u. prefix u (concat (cs # bs)) \<and> u \<noteq> [] \<longrightarrow>
                 \<not> sublist tok (?b @ concat (map (decodeChunk s) u))" by simp
      have "\<forall>u. prefix u (concat ((x # cs) # bs)) \<and> u \<noteq> [] \<longrightarrow>
                 \<not> sublist tok (readingBuffer s @ concat (map (decodeChunk s) u))"
      proof (intro allI impI)
        fix u assume a: "prefix u (concat ((x # cs) # bs)) \<and> u \<noteq> []"
        then obtain u' where u: "u = x # u'" and sp: "prefix u' (concat (cs # bs))"
          by (cases u) auto
        show "\<not> sublist tok (readingBuffer s @ concat (map (decodeChunk s) u))"
        proof (cases "u' = []")
          case True
          with u False show ?thesis by simp
        next
          case False
          with h sp have "\<not> sublist tok (?b @ concat (map (decodeChunk s) u'))" by blast
          with u show ?thesis by simp
        qed
      qed
      with Hung IH' show ?thesis by (simp add: written_onData decoder_onData)
    qed
  qed
qed


lemma readUntil_busy: "readingUntil s \<noteq> None \<Longrightarrow> readUntil s tok = (Inl alreadyRunning, s)"
  by (simp add: readUntil_def)

lemma awaitReadUntil_written:
  assumes "awaitReadUntil tok s env = (c, s', env')"
  shows "written s' = written s \<and> decoder s' = decoder s"
proof (cases "readingUntil s = None")
  case True
  obtain r s1 where rs: "readUntil s tok = (r, s1)" by (cases "readUntil s tok")
  from readUntil_waiting [OF True rs] have r: "r = Inr (length (promises s))"
    and w: "waiting s1 (length (promises s)) tok" and ws: "written s1 = written s"
    and d: "decoder s1 = decoder s" by simp_all
  from assms rs r have "awaitPromise (length (promises s)) s1 env = (c, s', env')"
    by (simp add: awaitReadUntil_def)
  from awaitPromise_waiting [OF w this] ws d show ?thesis by simp
next
  case False
  with assms show ?thesis by (simp add: awaitReadUntil_def readUntil_busy)
qed

lemma awaitReadUntil_fulfilled:
  assumes "awaitReadUntil tok s env = (Fulfilled r, s', env')"
  shows "readingUntil s = None \<and> idle s' \<and>
         (\<exists>used. concat env = used @ concat env' \<and> used \<noteq> [] \<and>
            r = concat (map (decodeChunk s) used) \<and> sublist tok r \<and>
            (\<forall>u. strict_prefix u used \<and> u \<noteq> [] \<longrightarrow>
               \<not> sublist tok (concat (map (decodeChunk s) u))))"
proof (cases "readingUntil s = None")
  case True
  obtain x s1 where rs: "readUntil s tok = (x, s1)" by (cases "readUntil s tok")
  from readUntil_waiting [OF True rs] have x: "x = Inr (length (promises s))"
    and w: "waiting s1 (length (promises s)) tok" and b: "readingBuffer s1 = []"
    and d: "decoder s1 = decoder s" by simp_all
  have dd: "decodeChunk s1 = decodeChunk s" by (rule ext, rule decodeChunk_cong) (rule d)
  from assms rs x have "awaitPromise (length (promises s)) s1 env = (Fulfilled r, s', env')"
    by (simp add: awaitReadUntil_def)
  from awaitPromise_waiting [OF w this] True show ?thesis by (simp add: b dd)
next
  case False
  with assms show ?thesis by (simp add: awaitReadUntil_def readUntil_busy)
qed

lemma awaitReadUntil_idle_outcome:
  assumes "readingUntil s = None" and "awaitReadUntil tok s env = (c, s', env')"
  shows "(\<forall>e. c \<noteq> Thrown e) \<and>
         (c = Hung \<longrightarrow> (\<forall>u. prefix u (concat env) \<and> u \<noteq> [] \<longrightarrow>
                          \<not> sublist tok (concat (map (decodeChunk s) u))))"
proof -
  obtain x s1 where rs: "readUntil s tok = (x, s1)" by (cases "readUntil s tok")
  from readUntil_waiting [OF assms(1) rs] have x: "x = Inr (length (promises s))"
    and w: "waiting s1 (length (promises s)) tok" and b: "readingBuffer s1 = []"
    and d: "decoder s1 = decoder s" by simp_all
  have dd: "decodeChunk s1 = decodeChunk s" by (rule ext, rule decodeChunk_cong) (rule d)
  from assms(2) rs x have "awaitPromise (length (promises s)) s1 env = (c, s', env')"
    by (simp add: awaitReadUntil_def)
  from awaitPromise_waiting [OF w this] show ?thesis by (cases c) (simp_all add: b dd)
qed

lemma andThen_fulfilled:
  assumes "andThen m f s env = (Fulfilled y, s', env')"
  shows "\<exists>x s1 env1. m s env = (Fulfilled x, s1, env1) \<and> f x s1 env1 = (Fulfilled y, s', env')"
  using assms by (auto simp: andThen_def split: prod.splits completion.splits)

lemma returnA_fulfilled: "returnA x s env = (Fulfilled y, s', env') \<Longrightarrow> y = x \<and> s' = s \<and> env' = env"
  by (simp add: returnA_def)

lemma written_callReject: "written (callReject cb msg s) = written s"
  by (simp add: callReject_def split: callback.splits)

lemma getPrompt_fulfilled:
  assumes "getPrompt s env = (Fulfilled u, s', env')"
  shows "idle s' \<and> written s' = written s @ [[0x03, 0x02]]"
proof -
  let ?s1 = "if truthy (readingUntil s)
             then callReject (rejectReadingUntilPromise s) (js ''Interrupt execution to get prompt'') s
             else s"
  let ?s2 = "writeStr ?s1 [0x03, 0x02]"
  from assms have "andThen (awaitReadUntil (js ''>>>'')) (\<lambda>_. returnA ()) ?s2 env
                     = (Fulfilled u, s', env')"
    by (simp add: getPrompt_def Let_def split: if_splits)
  from andThen_fulfilled [OF this] obtain x s3 env3 where
    a: "awaitReadUntil (js ''>>>'') ?s2 env = (Fulfilled x, s3, env3)" and
    b: "returnA () s3 env3 = (Fulfilled u, s', env')" by blast
  from b have "s' = s3" by (simp add: returnA_def)
  moreover from awaitReadUntil_fulfilled [OF a] have "idle s3" by simp
  moreover from awaitReadUntil_written [OF a] have "written s3 = written ?s2" by simp
  moreover have "written ?s2 = written s @ [[0x03, 0x02]]"
    by (simp add: writeStr_def written_callReject)
  ultimately show ?thesis by simp
qed

lemma writeThenWait_fulfilled:
  assumes "andThen (awaitReadUntil tok) (\<lambda>_. returnA ()) (writeStr s str) env
             = (Fulfilled u, s', env')"
  shows "idle s' \<and> written s' = written s @ [str]"
proof -
  from andThen_fulfilled [OF assms] obtain x s3 env3 where
    a: "awaitReadUntil tok (writeStr s str) env = (Fulfilled x, s3, env3)" and
    b: "returnA () s3 env3 = (Fulfilled u, s', env')" by blast
  from b have "s' = s3" by (simp add: returnA_def)
  moreover from awaitReadUntil_fulfilled [OF a] have "idle s3" by simp
  moreover from awaitReadUntil_written [OF a] have "written s3 = written (writeStr s str)" by simp
  ultimately show ?thesis by (simp add: writeStr_def)
qed

lemma enterRawRepl_fulfilled:
  "enterRawRepl s env = (Fulfilled u, s', env') \<Longrightarrow> idle s' \<and> written s' = written s @ [[0x01]]"
  unfolding enterRawRepl_def by (rule writeThenWait_fulfilled)

lemma exitRawRepl_fulfilled:
  "exitRawRepl s env = (Fulfilled u, s', env') \<Longrightarrow> idle s' \<and> written s' = written s @ [[0x02]]"
  unfolding exitRawRepl_def by (rule writeThenWait_fulfilled)


section \<open>\<open>executeRaw\<close>\<close>

lemma ceil_step:
  assumes "0 < n" and "i < (L::nat)"
  shows "(L - i + n - 1) div n = Suc ((L - (i + n) + n - 1) div n)"
proof (cases "i + n \<le> L")
  case True
  have e: "L - i + n - 1 = (L - (i + n) + n - 1) + n" using True assms by linarith
  have "((L - (i + n) + n - 1) + n) div n = Suc ((L - (i + n) + n - 1) div n)"
    using assms(1) by (simp only: div_add_self2)
  then show ?thesis by (simp only: e)
next
  case False
  have a: "L - (i + n) + n - 1 = n - 1" using False by linarith
  have b: "L - i + n - 1 = (L - i - 1) + n" using assms by linarith
  have c: "L - i - 1 < n" using False assms by linarith
  have "((L - i - 1) + n) div n = Suc ((L - i - 1) div n)"
    using assms(1) by (simp only: div_add_self2)
  also have "(L - i - 1) div n = 0" using c by (rule div_less)
  finally have l: "(L - i + n - 1) div n = Suc 0" by (simp only: b)
  have "(n - 1) div n = 0" using assms(1) by (intro div_less) linarith
  then show ?thesis by (simp only: l a)
qed

lemma slices_step:
  assumes "0 < n" and "i < L"
  shows "map (\<lambda>k. slice code (i + k * n) (i + k * n + n)) [0..<(L - i + n - 1) div n] =
         slice code i (i + n) #
         map (\<lambda>k. slice code (i + n + k * n) (i + n + k * n + n)) [0..<(L - (i + n) + n - 1) div n]"
proof -
  let ?m = "(L - (i + n) + n - 1) div n"
  have "map (\<lambda>k. slice code (i + k * n) (i + k * n + n)) [0..<Suc ?m] =
        slice code i (i + n) # map (\<lambda>k. slice code (i + Suc k * n) (i + Suc k * n + n)) [0..<?m]"
    by (simp only: upt_conv_Cons [of 0 "Suc ?m"] zero_less_Suc list.map map_Suc_upt [symmetric]
        map_map o_def) simp
  also have "map (\<lambda>k. slice code (i + Suc k * n) (i + Suc k * n + n)) [0..<?m] =
             map (\<lambda>k. slice code (i + n + k * n) (i + n + k * n + n)) [0..<?m]"
    by (simp add: ac_simps)
  finally show ?thesis by (simp only: ceil_step [OF assms])
qed

lemma session_written_twice: "s\<lparr>written := a\<rparr>\<lparr>written := b\<rparr> = s\<lparr>written := b\<rparr>"
  by simp

lemma executeRaw_loop_facts:
  assumes "executeRaw_loop code i s env = (s', env')"
  shows "written s' = written s @
           map (\<lambda>k. slice code (i + k * S) (i + k * S + S)) [0..<(length code - i + S - 1) div S] \<and>
         decoder s' = decoder s \<and>
         env' = drop (2 * ((length code - i + S - 1) div S)) env \<and>
         (readingUntil s = None \<longrightarrow>
            s' = s\<lparr>written := written s @
              map (\<lambda>k. slice code (i + k * S) (i + k * S + S)) [0..<(length code - i + S - 1) div S]\<rparr>)"
  using assms
proof (induction code i s env rule: executeRaw_loop.induct)
  case (1 code i s env)
  have Spos: "0 < S" by (simp add: S_def)
  show ?case
  proof (cases "i < length code")
    case True
    let ?W = "map (\<lambda>k. slice code (i + S + k * S) (i + S + k * S + S))
                [0..<(length code - (i + S) + S - 1) div S]"
    obtain s1 env1 where a1: "arrive (writeStr s (slice code i (i + S))) env = (s1, env1)"
      by (cases "arrive (writeStr s (slice code i (i + S))) env")
    obtain s2 env2 where a2: "arrive s1 env1 = (s2, env2)" by (cases "arrive s1 env1")
    from "1.prems" True a1 a2 have run: "executeRaw_loop code (i + S) s2 env2 = (s', env')"
      by (simp add: executeRaw_loop.simps [of code i])
    note IH = "1.IH" [OF True a1 [symmetric] a2 [symmetric] run]
    note f1 = arrive_facts [OF a1]
    note f2 = arrive_facts [OF a2]
    have w2: "written s2 = written s @ [slice code i (i + S)]"
      using f1(1) f2(1) by (simp add: writeStr_def)
    have d2: "decoder s2 = decoder s" using f1(2) f2(2) by (simp add: writeStr_def)
    have e2: "env2 = drop 2 env" using f1(3) f2(3) by (simp add: numeral_2_eq_2)
    note cnt = ceil_step [OF Spos True]
    note sl = slices_step [OF Spos True, of code]
    have idle2: "readingUntil s = None \<Longrightarrow> s2 = s\<lparr>written := written s @ [slice code i (i + S)]\<rparr>"
    proof -
      assume n: "readingUntil s = None"
      then have "readingUntil (writeStr s (slice code i (i + S))) = None" by (simp add: writeStr_def)
      from f1(4) [OF this] have s1: "s1 = writeStr s (slice code i (i + S))" .
      then have "readingUntil s1 = None" using n by (simp add: writeStr_def)
      from f2(4) [OF this] s1 show ?thesis by (simp add: writeStr_def)
    qed
    from IH have i1: "written s' = written s2 @ ?W" and i2: "decoder s' = decoder s2"
      and i3: "env' = drop (2 * ((length code - (i + S) + S - 1) div S)) env2"
      and i4: "readingUntil s2 = None \<longrightarrow> s' = s2\<lparr>written := written s2 @ ?W\<rparr>"
      by blast+
    have "written s' = written s @
           map (\<lambda>k. slice code (i + k * S) (i + k * S + S)) [0..<(length code - i + S - 1) div S]"
      by (simp only: sl i1 w2) simp
    moreover have "decoder s' = decoder s" using i2 d2 by simp
    moreover have "env' = drop (2 * ((length code - i + S - 1) div S)) env"
      by (simp only: i3 e2 cnt) simp
    moreover have "readingUntil s = None \<longrightarrow>
            s' = s\<lparr>written := written s @
              map (\<lambda>k. slice code (i + k * S) (i + k * S + S)) [0..<(length code - i + S - 1) div S]\<rparr>"
    proof
      assume n: "readingUntil s = None"
      from idle2 [OF n] have s2: "s2 = s\<lparr>written := written s @ [slice code i (i + S)]\<rparr>" .
      have "readingUntil s2 = None" by (subst s2) (simp add: n)
      with i4 have "s' = s2\<lparr>written := written s2 @ ?W\<rparr>" by blast
      then have "s' = s\<lparr>written := (written s @ [slice code i (i + S)]) @ ?W\<rparr>"
        unfolding s2 by simp
      then show "s' = s\<lparr>written := written s @
              map (\<lambda>k. slice code (i + k * S) (i + k * S + S)) [0..<(length code - i + S - 1) div S]\<rparr>"
        by (simp only: sl session_written_twice) simp
    qed
    ultimately show ?thesis by blast
  next
    case False
    with "1.prems" have "s' = s" "env' = env" by (simp_all add: executeRaw_loop.simps [of code i])
    moreover from False have "(length code - i + S - 1) div S = 0" by (simp add: S_def)
    ultimately show ?thesis by simp
  qed
qed

section \<open>What \<open>executeRaw\<close> sends and returns\<close>

lemma concat_slices:
  "concat (map (\<lambda>k. slice xs (k * n) (k * n + n)) [0..<m]) = take (m * n) xs"
proof (induction m)
  case 0
  show ?case by simp
next
  case (Suc m)
  have "take (m * n) xs @ take n (drop (m * n) xs) = take (m * n + n) xs"
    by (simp add: take_add)
  then show ?case using Suc by (simp add: slice_def add.commute)
qed

lemma below_ceil:
  assumes "k < (L + n - 1) div n" and "0 < (n::nat)"
  shows "k * n < L"
proof -
  from assms(1) have "Suc k \<le> (L + n - 1) div n" by simp
  then have "Suc k * n \<le> ((L + n - 1) div n) * n" by (rule mult_le_mono1)
  also have "\<dots> \<le> L + n - 1" by (rule div_times_less_eq_dividend)
  finally have "k * n + n \<le> L + n - 1" by (simp add: add.commute)
  with assms(2) show ?thesis by linarith
qed

lemma ceil_covers:
  assumes "0 < (n::nat)"
  shows "L \<le> ((L + n - 1) div n) * n"
proof -
  have "L + n - 1 = ((L + n - 1) div n) * n + (L + n - 1) mod n" by simp
  moreover have "(L + n - 1) mod n < n" using assms by simp
  ultimately show ?thesis by linarith
qed

lemma slices_cover:
  assumes "0 < n"
  shows "concat (map (\<lambda>k. slice xs (k * n) (k * n + n)) [0..<(length xs + n - 1) div n]) = xs"
  using ceil_covers [OF assms, of "length xs"] by (simp add: concat_slices)

lemma slices_bounded:
  assumes "0 < n" and "x \<in> set (map (\<lambda>k. slice xs (k * n) (k * n + n)) [0..<(length xs + n - 1) div n])"
  shows "x \<noteq> [] \<and> length x \<le> n"
proof -
  from assms(2) obtain k where k: "k < (length xs + n - 1) div n"
    and x: "x = slice xs (k * n) (k * n + n)" by auto
  from below_ceil [OF k assms(1)] have "k * n < length xs" .
  then show ?thesis using assms(1) x by (simp add: slice_def)
qed

lemma executeRaw_writes_chunks:
  "\<exists>chunks. executeRaw_writes code = chunks @ [[0x04]] \<and> concat chunks = code \<and>
            (\<forall>x\<in>set chunks. x \<noteq> [] \<and> length x \<le> 128)"
proof -
  have Spos: "0 < S" by (simp add: S_def)
  let ?chunks = "map (\<lambda>k. slice code (k * S) (k * S + S)) [0..<(length code + S - 1) div S]"
  have "executeRaw_writes code = ?chunks @ [[0x04]]" by (simp add: executeRaw_writes_def)
  moreover have "concat ?chunks = code" by (rule slices_cover [OF Spos])
  moreover have "\<forall>x\<in>set ?chunks. x \<noteq> [] \<and> length x \<le> 128"
    using slices_bounded [OF Spos, of _ code] by (simp only: S_def) blast
  ultimately show ?thesis by blast
qed

lemma executeRaw_steps:
  assumes "executeRaw code s env = (c, s', env')"
  shows "\<exists>s2. awaitReadUntil [0x04, 0x3E] s2
                (drop (2 * ((length code + S - 1) div S) + 1) env) = (c, s', env') \<and>
              written s2 = written s @ executeRaw_writes code \<and> decoder s2 = decoder s \<and>
              (readingUntil s = None \<longrightarrow> readingUntil s2 = None)"
proof -
  obtain s1 env1 where l: "executeRaw_loop code 0 s env = (s1, env1)"
    by (cases "executeRaw_loop code 0 s env")
  obtain s2 env2 where a: "arrive (writeStr s1 [0x04]) env1 = (s2, env2)"
    by (cases "arrive (writeStr s1 [0x04]) env1")
  from assms l a have w: "awaitReadUntil [0x04, 0x3E] s2 env2 = (c, s', env')"
    by (simp add: executeRaw_def)
  from executeRaw_loop_facts [OF l]
  have w1: "written s1 = written s @
              map (\<lambda>k. slice code (k * S) (k * S + S)) [0..<(length code + S - 1) div S]"
    and d1: "decoder s1 = decoder s"
    and e1: "env1 = drop (2 * ((length code + S - 1) div S)) env"
    and i1: "readingUntil s = None \<longrightarrow> s1 = s\<lparr>written := written s @
              map (\<lambda>k. slice code (k * S) (k * S + S)) [0..<(length code + S - 1) div S]\<rparr>"
    by simp_all
  note f = arrive_facts [OF a]
  have w2: "written s2 = written s @ executeRaw_writes code"
    using f(1) w1 by (simp add: writeStr_def executeRaw_writes_def)
  have d2: "decoder s2 = decoder s" using f(2) d1 by (simp add: writeStr_def)
  have e2: "env2 = drop (2 * ((length code + S - 1) div S) + 1) env"
    using f(3) e1 by (simp add: add.commute)
  have i2: "readingUntil s = None \<longrightarrow> readingUntil s2 = None"
  proof
    assume n: "readingUntil s = None"
    from n i1 have "s1 = s\<lparr>written := written s @
              map (\<lambda>k. slice code (k * S) (k * S + S)) [0..<(length code + S - 1) div S]\<rparr>"
      by (rule rev_mp)
    then have "readingUntil s1 = readingUntil s" by (rule ssubst) simp
    with n have "readingUntil s1 = None" by simp
    then have r: "readingUntil (writeStr s1 [0x04]) = None" by (simp add: writeStr_def)
    from f(4) [OF r] r show "readingUntil s2 = None" by simp
  qed
  show ?thesis
  proof (intro exI [of _ s2] conjI)
    show "awaitReadUntil [0x04, 0x3E] s2 (drop (2 * ((length code + S - 1) div S) + 1) env)
            = (c, s', env')" using w by (simp only: e2)
  qed (rule w2 d2 i2)+
qed

lemma executeRaw_written:
  assumes "executeRaw code s env = (c, s', env')"
  shows "written s' = written s @ executeRaw_writes code \<and> decoder s' = decoder s"
proof -
  from executeRaw_steps [OF assms] obtain s2 where
    w: "awaitReadUntil [0x04, 0x3E] s2 (drop (2 * ((length code + S - 1) div S) + 1) env)
          = (c, s', env')" and
    w2: "written s2 = written s @ executeRaw_writes code" and d2: "decoder s2 = decoder s"
    by blast
  from awaitReadUntil_written [OF w] w2 d2 show ?thesis by simp
qed

lemma executeRaw_fulfilled:
  assumes "executeRaw code s env = (Fulfilled r, s', env')"
  shows "idle s' \<and> written s' = written s @ executeRaw_writes code"
proof -
  from executeRaw_steps [OF assms] obtain s2 where
    w: "awaitReadUntil [0x04, 0x3E] s2 (drop (2 * ((length code + S - 1) div S) + 1) env)
          = (Fulfilled r, s', env')" by blast
  from awaitReadUntil_fulfilled [OF w] executeRaw_written [OF assms] show ?thesis by simp
qed

lemma executeRaw_idle_wait:
  assumes "readingUntil s = None" and "executeRaw code s env = (c, s', env')"
  shows "\<exists>s2. awaitReadUntil [0x04, 0x3E] s2
                (drop (2 * ((length code + 127) div 128) + 1) env) = (c, s', env') \<and>
              decodeChunk s2 = decodeChunk s \<and> readingUntil s2 = None"
proof -
  have k: "2 * ((length code + S - 1) div S) + 1 = 2 * ((length code + 127) div 128) + 1"
    by (simp add: S_def)
  from executeRaw_steps [OF assms(2)] obtain s2 where
    w: "awaitReadUntil [0x04, 0x3E] s2 (drop (2 * ((length code + S - 1) div S) + 1) env)
          = (c, s', env')" and
    d2: "decoder s2 = decoder s" and i2': "readingUntil s = None \<longrightarrow> readingUntil s2 = None"
    by (elim exE conjE)
  from i2' assms(1) have i2: "readingUntil s2 = None" by (rule mp)
  have dd: "decodeChunk s2 = decodeChunk s" by (rule ext, rule decodeChunk_cong) (rule d2)
  show ?thesis
  proof (intro exI [of _ s2] conjI)
    show "awaitReadUntil [0x04, 0x3E] s2 (drop (2 * ((length code + 127) div 128) + 1) env)
            = (c, s', env')" using w by (simp only: k)
  qed (rule dd i2)+
qed

lemma executeRaw_idle_outcome:
  assumes "readingUntil s = None" and "executeRaw code s env = (c, s', env')"
  shows "(\<forall>e. c \<noteq> Thrown e) \<and>
         (c = Hung \<longrightarrow>
            (\<forall>u. prefix u (concat (drop (2 * ((length code + 127) div 128) + 1) env)) \<and> u \<noteq> [] \<longrightarrow>
               \<not> sublist [0x04, 0x3E] (concat (map (decodeChunk s) u))))"
proof -
  from executeRaw_idle_wait [OF assms] obtain s2 where
    w: "awaitReadUntil [0x04, 0x3E] s2
          (drop (2 * ((length code + 127) div 128) + 1) env) = (c, s', env')" and
    dd: "decodeChunk s2 = decodeChunk s" and i2: "readingUntil s2 = None" by (elim exE conjE)
  from awaitReadUntil_idle_outcome [OF i2 w, unfolded dd] show ?thesis .
qed

lemma executeRaw_idle_capture:
  assumes "readingUntil s = None" and "executeRaw code s env = (Fulfilled r, s', env')"
  shows "\<exists>used. concat (drop (2 * ((length code + 127) div 128) + 1) env) = used @ concat env' \<and>
           used \<noteq> [] \<and> r = concat (map (decodeChunk s) used) \<and>
           sublist [0x04, 0x3E] r \<and>
           (\<forall>u. strict_prefix u used \<and> u \<noteq> [] \<longrightarrow>
              \<not> sublist [0x04, 0x3E] (concat (map (decodeChunk s) u)))"
proof -
  from executeRaw_idle_wait [OF assms] obtain s2 where
    w: "awaitReadUntil [0x04, 0x3E] s2
          (drop (2 * ((length code + 127) div 128) + 1) env) = (Fulfilled r, s', env')" and
    dd: "decodeChunk s2 = decodeChunk s" by (elim exE conjE)
  from awaitReadUntil_fulfilled [OF w] have
    "\<exists>used. concat (drop (2 * ((length code + 127) div 128) + 1) env) = used @ concat env' \<and>
           used \<noteq> [] \<and> r = concat (map (decodeChunk s2) used) \<and>
           sublist [0x04, 0x3E] r \<and>
           (\<forall>u. strict_prefix u used \<and> u \<noteq> [] \<longrightarrow>
              \<not> sublist [0x04, 0x3E] (concat (map (decodeChunk s2) u)))"
    by (elim conjE)
  then show ?thesis unfolding dd .
qed

text \<open>
  C4. On a session with no wait outstanding, \<open>executeRaw\<close> hands the writer the command
  in consecutive nonempty slices of at most 128 code units, whose concatenation is the
  command, and then the byte 4. It then waits for the byte 4 followed by \<open>></\<close>: with
  \<open>n\<close> the number of slices, the chunks that arrive after the \<open>2n + 1\<close> awaits of the
  writes and timers are collected, the call returns if and only if their text comes to
  contain the marker, and what it returns is the whole text collected up to and
  including the first chunk that completes the marker, unchanged. It never throws.
\<close>

theorem executeRaw_writes_slices_and_returns_capture:
  assumes "readingUntil s = None" and "executeRaw code s env = (c, s', env')"
  shows "written s' = written s @ executeRaw_writes code \<and>
         (\<exists>chunks. executeRaw_writes code = chunks @ [[0x04]] \<and> concat chunks = code \<and>
            (\<forall>x\<in>set chunks. x \<noteq> [] \<and> length x \<le> 128)) \<and>
         (\<forall>e. c \<noteq> Thrown e) \<and>
         ((\<exists>r. c = Fulfilled r) \<longleftrightarrow>
            (\<exists>u. prefix u (concat (drop (2 * ((length code + 127) div 128) + 1) env)) \<and> u \<noteq> [] \<and>
                 sublist [0x04, 0x3E] (concat (map (decodeChunk s) u)))) \<and>
         (\<forall>r. c = Fulfilled r \<longrightarrow>
            (\<exists>used. concat (drop (2 * ((length code + 127) div 128) + 1) env) = used @ concat env' \<and>
               used \<noteq> [] \<and> r = concat (map (decodeChunk s) used) \<and>
               sublist [0x04, 0x3E] r \<and>
               (\<forall>u. strict_prefix u used \<and> u \<noteq> [] \<longrightarrow>
                  \<not> sublist [0x04, 0x3E] (concat (map (decodeChunk s) u)))))"
proof -
  let ?after = "concat (drop (2 * ((length code + 127) div 128) + 1) env)"
  note out = executeRaw_idle_outcome [OF assms]
  have w': "written s' = written s @ executeRaw_writes code"
    using executeRaw_written [OF assms(2)] by (rule conjunct1)
  have nt: "\<forall>e. c \<noteq> Thrown e" using out by (rule conjunct1)
  have hung: "c = Hung \<longrightarrow>
            (\<forall>u. prefix u ?after \<and> u \<noteq> [] \<longrightarrow>
               \<not> sublist [0x04, 0x3E] (concat (map (decodeChunk s) u)))"
    using out by (rule conjunct2)
  have ful: "\<forall>r. c = Fulfilled r \<longrightarrow>
            (\<exists>used. ?after = used @ concat env' \<and>
               used \<noteq> [] \<and> r = concat (map (decodeChunk s) used) \<and>
               sublist [0x04, 0x3E] r \<and>
               (\<forall>u. strict_prefix u used \<and> u \<noteq> [] \<longrightarrow>
                  \<not> sublist [0x04, 0x3E] (concat (map (decodeChunk s) u))))"
  proof (intro allI impI)
    fix r assume "c = Fulfilled r"
    with assms(2) have "executeRaw code s env = (Fulfilled r, s', env')" by simp
    from executeRaw_idle_capture [OF assms(1) this]
    show "\<exists>used. ?after = used @ concat env' \<and>
               used \<noteq> [] \<and> r = concat (map (decodeChunk s) used) \<and>
               sublist [0x04, 0x3E] r \<and>
               (\<forall>u. strict_prefix u used \<and> u \<noteq> [] \<longrightarrow>
                  \<not> sublist [0x04, 0x3E] (concat (map (decodeChunk s) u)))" .
  qed
  have iff: "(\<exists>r. c = Fulfilled r) \<longleftrightarrow>
            (\<exists>u. prefix u ?after \<and> u \<noteq> [] \<and>
                 sublist [0x04, 0x3E] (concat (map (decodeChunk s) u)))"
  proof
    assume "\<exists>r. c = Fulfilled r"
    then obtain r where cr: "c = Fulfilled r" ..
    from ful cr obtain used where u: "?after = used @ concat env'" "used \<noteq> []"
      "r = concat (map (decodeChunk s) used)" "sublist [0x04, 0x3E] r" by blast
    have "prefix used ?after" by (simp only: u(1) prefixI)
    with u show "\<exists>u. prefix u ?after \<and> u \<noteq> [] \<and>
                 sublist [0x04, 0x3E] (concat (map (decodeChunk s) u))"
      by (intro exI [of _ used]) simp
  next
    assume hit: "\<exists>u. prefix u ?after \<and> u \<noteq> [] \<and>
                 sublist [0x04, 0x3E] (concat (map (decodeChunk s) u))"
    show "\<exists>r. c = Fulfilled r"
    proof (cases c)
      case (Fulfilled r)
      then show ?thesis by blast
    next
      case (Thrown e)
      with nt show ?thesis by blast
    next
      case Hung
      with hung hit show ?thesis by blast
    qed
  qed
  show ?thesis
    using w' executeRaw_writes_chunks [of code] nt iff ful by (intro conjI) assumption+
qed


text \<open>
  The command \<open>print(1)\<close> is one slice; nothing arrives during the three awaits of the
  writes and the timer, then the device answers in three chunks that split the marker.
\<close>

theorem executeRaw_writes_slices_and_returns_capture_witness:
  "readingUntil (newSession decodeAscii True) = None \<and>
   written (fst (snd (executeRaw (js ''print(1)'') (newSession decodeAscii True)
      [[], [], [], [Text (js ''OK1''), Bytes [0x04], Bytes [0x04, 0x3E], Text (js ''x'')]])))
     = [js ''print(1)'', [0x04]] \<and>
   (\<exists>r. fst (executeRaw (js ''print(1)'') (newSession decodeAscii True)
      [[], [], [], [Text (js ''OK1''), Bytes [0x04], Bytes [0x04, 0x3E], Text (js ''x'')]])
     = Fulfilled r)"
proof -
  let ?s = "newSession decodeAscii True"
  let ?code = "js ''print(1)''"
  let ?env = "[[], [], [], [Text (js ''OK1''), Bytes [0x04], Bytes [0x04, 0x3E], Text (js ''x'')]]"
  obtain c s' env' where e: "executeRaw ?code ?s ?env = (c, s', env')"
    by (cases "executeRaw ?code ?s ?env")
  have h: "readingUntil ?s = None" by (simp add: newSession_def)
  note T = executeRaw_writes_slices_and_returns_capture [OF h e]
  have n: "2 * ((length ?code + 127) div 128) + 1 = 3" by (simp add: js_def)
  have "executeRaw_writes ?code = [?code, [0x04]]"
    by (simp add: executeRaw_writes_def S_def slice_def js_def)
  moreover have "written ?s = []" by (simp add: newSession_def)
  moreover from T have "written s' = written ?s @ executeRaw_writes ?code" by (rule conjunct1)
  ultimately have w: "written s' = [?code, [0x04]]" by simp
  let ?u = "[Text (js ''OK1''), Bytes [0x04], Bytes [0x04, 0x3E]]"
  have "concat (map (decodeChunk ?s) ?u) = (js ''OK1'' @ [0x04]) @ [0x04, 0x3E] @ []"
    by (simp add: decodeChunk_def newSession_def decodeAscii_def)
  then have sub: "sublist [0x04, 0x3E] (concat (map (decodeChunk ?s) ?u))"
    by (simp only: sublist_appendI)
  have pre: "prefix ?u (concat (drop (2 * ((length ?code + 127) div 128) + 1) ?env))"
    by (simp only: n) (simp add: numeral_3_eq_3)
  have hit: "\<exists>u. prefix u (concat (drop (2 * ((length ?code + 127) div 128) + 1) ?env)) \<and> u \<noteq> [] \<and>
                 sublist [0x04, 0x3E] (concat (map (decodeChunk ?s) u))"
    using pre sub by (intro exI [of _ ?u]) simp
  from T have "(\<exists>r. c = Fulfilled r) \<longleftrightarrow>
            (\<exists>u. prefix u (concat (drop (2 * ((length ?code + 127) div 128) + 1) ?env)) \<and> u \<noteq> [] \<and>
                 sublist [0x04, 0x3E] (concat (map (decodeChunk ?s) u)))"
    by (elim conjE)
  with hit have "\<exists>r. c = Fulfilled r" by (rule iffD2 [rotated])
  with h w e show ?thesis by simp
qed

section \<open>Between operations\<close>

lemma ends_idleI:
  "(\<And>s env y s' env'. f s env = (Fulfilled y, s', env') \<Longrightarrow> idle s') \<Longrightarrow> ends_idle f"
  unfolding ends_idle_def by blast

lemma ends_idle_andThen:
  assumes "\<And>x. ends_idle (f x)"
  shows "ends_idle (andThen m f)"
proof (rule ends_idleI)
  fix s env y s' env'
  assume "andThen m f s env = (Fulfilled y, s', env')"
  from andThen_fulfilled [OF this] obtain x s1 env1 where
    "f x s1 env1 = (Fulfilled y, s', env')" by (elim exE conjE)
  with assms [of x] show "idle s'" unfolding ends_idle_def by blast
qed

lemma ends_idle_then_return:
  assumes "ends_idle m"
  shows "ends_idle (andThen m (\<lambda>x. returnA (g x)))"
proof (rule ends_idleI)
  fix s env y s' env'
  assume "andThen m (\<lambda>x. returnA (g x)) s env = (Fulfilled y, s', env')"
  from andThen_fulfilled [OF this] obtain x s1 env1 where
    a: "m s env = (Fulfilled x, s1, env1)" and b: "returnA (g x) s1 env1 = (Fulfilled y, s', env')"
    by (elim exE conjE)
  from b have "s' = s1" by (simp add: returnA_def)
  with a assms show "idle s'" unfolding ends_idle_def by blast
qed

lemma ends_idle_getPrompt: "ends_idle getPrompt"
  by (rule ends_idleI) (drule getPrompt_fulfilled, simp)

lemma ends_idle_enterRawRepl: "ends_idle enterRawRepl"
  by (rule ends_idleI) (drule enterRawRepl_fulfilled, simp)

lemma ends_idle_exitRawRepl: "ends_idle exitRawRepl"
  by (rule ends_idleI) (drule exitRawRepl_fulfilled, simp)

lemma ends_idle_executeRaw: "ends_idle (executeRaw code)"
  by (rule ends_idleI) (drule executeRaw_fulfilled, simp)

lemma ends_idle_runHelper: "ends_idle runHelper"
  unfolding runHelper_def
  by (intro ends_idle_andThen ends_idle_then_return ends_idle_exitRawRepl)

lemma ends_idle_uploadFile: "ends_idle (uploadFile p data)"
  unfolding uploadFile_def
  by (intro ends_idle_andThen ends_idle_then_return ends_idle_exitRawRepl)

lemma ends_idle_createFolder: "ends_idle (createFolder p)"
  unfolding createFolder_def by (intro ends_idle_andThen ends_idle_exitRawRepl)

lemma ends_idle_createFile: "ends_idle (createFile p)"
  unfolding createFile_def by (intro ends_idle_andThen ends_idle_exitRawRepl)

lemma ends_idle_removeFile: "ends_idle (removeFile p)"
  unfolding removeFile_def by (intro ends_idle_andThen ends_idle_exitRawRepl)

lemma ends_idle_removeFolder: "ends_idle (removeFolder p)"
  unfolding removeFolder_def by (intro ends_idle_andThen ends_idle_exitRawRepl)

lemma ends_idle_downloadFile: "ends_idle (downloadFile p)"
  unfolding downloadFile_def
  by (intro ends_idle_andThen ends_idle_then_return ends_idle_exitRawRepl)

text \<open>
  C10. While no wait is outstanding \<open>onData\<close> leaves the session as it is, so the bytes
  go into no buffer, and a wait registered afterwards behaves as if they had never
  arrived; every wait that \<open>readUntil\<close> registers starts from the empty buffer; and each
  protocol operation and each file operation that completes leaves \<open>readingUntil\<close> null
  and \<open>readingBuffer\<close> empty.
\<close>

theorem bytes_without_wait_are_discarded:
  "(readingUntil s = None \<longrightarrow>
      onData s c = s \<and> feed s cs = s \<and>
      awaitReadUntil tok (feed s cs) env = awaitReadUntil tok s env) \<and>
   (\<forall>p s1. readUntil s tok = (Inr p, s1) \<longrightarrow> readingBuffer s1 = [] \<and> readingUntil s1 = Some tok) \<and>
   idle (newSession dec cb) \<and>
   ends_idle getPrompt \<and> ends_idle enterRawRepl \<and> ends_idle exitRawRepl \<and>
   ends_idle (executeRaw code) \<and> ends_idle runHelper \<and>
   ends_idle (uploadFile p data) \<and> ends_idle (downloadFile p) \<and>
   ends_idle (createFolder p) \<and> ends_idle (removeFolder p) \<and>
   ends_idle (createFile p) \<and> ends_idle (removeFile p)"
proof -
  have 1: "readingUntil s = None \<longrightarrow>
      onData s c = s \<and> feed s cs = s \<and>
      awaitReadUntil tok (feed s cs) env = awaitReadUntil tok s env"
    by (simp add: onData_idle feed_idle)
  have 2: "\<forall>p s1. readUntil s tok = (Inr p, s1) \<longrightarrow>
             readingBuffer s1 = [] \<and> readingUntil s1 = Some tok"
    by (auto simp: readUntil_def Let_def split: if_splits)
  have 3: "idle (newSession dec cb)" by (simp add: idle_def newSession_def)
  show ?thesis
    by (intro conjI 1 2 3 ends_idle_getPrompt ends_idle_enterRawRepl ends_idle_exitRawRepl
        ends_idle_executeRaw ends_idle_runHelper ends_idle_uploadFile ends_idle_downloadFile
        ends_idle_createFolder ends_idle_removeFolder ends_idle_createFile ends_idle_removeFile)
qed


text \<open>
  Bytes that reach a fresh session are dropped, and \<open>getPrompt\<close>, answered by the
  prompt, completes and leaves the session idle.
\<close>

theorem bytes_without_wait_are_discarded_witness:
  "readingUntil (newSession decodeAscii True) = None \<and>
   onData (newSession decodeAscii True) (Text (js ''junk'')) = newSession decodeAscii True \<and>
   fst (getPrompt (newSession decodeAscii True) [[Bytes [0x3E, 0x3E], Text (js ''> '')]])
     = Fulfilled () \<and>
   idle (fst (snd (getPrompt (newSession decodeAscii True) [[Bytes [0x3E, 0x3E], Text (js ''> '')]])))"
proof -
  let ?s = "newSession decodeAscii True"
  let ?env = "[[Bytes [0x3E, 0x3E], Text (js ''> '')]]"
  note T = bytes_without_wait_are_discarded
    [of ?s "Text (js ''junk'')" "[]" "js ''>>>''" "[]" decodeAscii True "[]" "[]" "[]"]
  have h: "readingUntil ?s = None" by (simp add: newSession_def)
  from T have "readingUntil ?s = None \<longrightarrow>
      onData ?s (Text (js ''junk'')) = ?s \<and> feed ?s [] = ?s \<and>
      awaitReadUntil (js ''>>>'') (feed ?s []) [] = awaitReadUntil (js ''>>>'') ?s []"
    by (rule conjunct1)
  with h have d: "onData ?s (Text (js ''junk'')) = ?s" by blast
  obtain c s' env' where e: "getPrompt ?s ?env = (c, s', env')" by (cases "getPrompt ?s ?env")
  have "fst (getPrompt ?s ?env) = Fulfilled ()"
    by (simp add: getPrompt_def andThen_def returnA_def awaitReadUntil_def readUntil_def
        onData_def callResolve_def settle_def status_def outcome_def writeStr_def truthy_def
        newSession_def decodeChunk_def decodeAscii_def indexOf_def js_def Let_def)
  with e have c: "c = Fulfilled ()" by simp
  from T have "ends_idle getPrompt" by (elim conjE)
  with e c have "idle s'" unfolding ends_idle_def by blast
  with h d e c show ?thesis by simp
qed

section \<open>\<open>uploadFile\<close>\<close>

lemma steps_unfold:
  assumes "0 < n" and "i < L"
  shows "map (\<lambda>k. f (i + k * n)) [0..<(L - i + n - 1) div n] =
         f i # map (\<lambda>k. f (i + n + k * n)) [0..<(L - (i + n) + n - 1) div n]"
proof -
  let ?m = "(L - (i + n) + n - 1) div n"
  have "map (\<lambda>k. f (i + k * n)) [0..<Suc ?m] =
        f i # map (\<lambda>k. f (i + Suc k * n)) [0..<?m]"
    by (simp only: upt_conv_Cons [of 0 "Suc ?m"] zero_less_Suc list.map map_Suc_upt [symmetric]
        map_map o_def) simp
  also have "map (\<lambda>k. f (i + Suc k * n)) [0..<?m] = map (\<lambda>k. f (i + n + k * n)) [0..<?m]"
    by (simp add: ac_simps)
  finally show ?thesis by (simp only: ceil_step [OF assms])
qed

lemma uploadFile_loop_facts:
  assumes "uploadFile_loop data i reported s env = (Fulfilled out, s', env')"
  shows "written s' = written s @
           concat (map (\<lambda>k. executeRaw_writes (uploadFile_chunk_command
                     (slice data (i + k * CHUNK_SIZE) (i + k * CHUNK_SIZE + CHUNK_SIZE))))
             [0..<(length data - i + CHUNK_SIZE - 1) div CHUNK_SIZE]) \<and>
         out = reported @
           map (\<lambda>k. (min (i + k * CHUNK_SIZE + CHUNK_SIZE) (length data), length data))
             [0..<(length data - i + CHUNK_SIZE - 1) div CHUNK_SIZE]"
  using assms
proof (induction data i reported s env rule: uploadFile_loop.induct)
  case (1 data i reported s env)
  have Cpos: "0 < CHUNK_SIZE" by (simp add: CHUNK_SIZE_def)
  let ?cmd = "uploadFile_chunk_command (slice data i (i + CHUNK_SIZE))"
  show ?case
  proof (cases "i < length data")
    case True
    obtain c s1 env1 where e: "executeRaw ?cmd s env = (c, s1, env1)"
      by (cases "executeRaw ?cmd s env")
    let ?rep = "reported @ [(min (i + CHUNK_SIZE) (length data), length data)]"
    have unf: "uploadFile_loop data i reported s env =
        (case c of
           Fulfilled r \<Rightarrow> uploadFile_loop data (i + CHUNK_SIZE) ?rep s1 env1
         | Thrown x \<Rightarrow> (Thrown x, s1, env1)
         | Hung \<Rightarrow> (Hung, s1, env1))"
      by (subst uploadFile_loop.simps) (simp only: True if_True e prod.case)
    from "1.prems" unf obtain r where c: "c = Fulfilled r"
      by (cases c) simp_all
    from "1.prems" unf c
    have run: "uploadFile_loop data (i + CHUNK_SIZE) ?rep s1 env1 = (Fulfilled out, s', env')"
      by simp
    have e': "(c, s1, env1) = executeRaw ?cmd s env" using e by simp
    note IH = "1.IH" [OF True e' c refl run]
    from executeRaw_written [OF e] have w1: "written s1 = written s @ executeRaw_writes ?cmd"
      by (rule conjunct1)
    note u1 = steps_unfold [OF Cpos True,
        of "\<lambda>j. executeRaw_writes (uploadFile_chunk_command (slice data j (j + CHUNK_SIZE)))"]
    note u2 = steps_unfold [OF Cpos True,
        of "\<lambda>j. (min (j + CHUNK_SIZE) (length data), length data)"]
    from IH have i1: "written s' = written s1 @
           concat (map (\<lambda>k. executeRaw_writes (uploadFile_chunk_command
                     (slice data (i + CHUNK_SIZE + k * CHUNK_SIZE)
                        (i + CHUNK_SIZE + k * CHUNK_SIZE + CHUNK_SIZE))))
             [0..<(length data - (i + CHUNK_SIZE) + CHUNK_SIZE - 1) div CHUNK_SIZE])"
      and i2: "out = ?rep @
           map (\<lambda>k. (min (i + CHUNK_SIZE + k * CHUNK_SIZE + CHUNK_SIZE) (length data), length data))
             [0..<(length data - (i + CHUNK_SIZE) + CHUNK_SIZE - 1) div CHUNK_SIZE]"
      by blast+
    have "written s' = written s @
           concat (map (\<lambda>k. executeRaw_writes (uploadFile_chunk_command
                     (slice data (i + k * CHUNK_SIZE) (i + k * CHUNK_SIZE + CHUNK_SIZE))))
             [0..<(length data - i + CHUNK_SIZE - 1) div CHUNK_SIZE])"
      by (simp only: u1 i1 w1 concat.simps list.map append_assoc)
    moreover have "out = reported @
           map (\<lambda>k. (min (i + k * CHUNK_SIZE + CHUNK_SIZE) (length data), length data))
             [0..<(length data - i + CHUNK_SIZE - 1) div CHUNK_SIZE]"
      by (simp only: u2 i2 append_assoc append_Cons append_Nil)
    ultimately show ?thesis by (rule conjI)
  next
    case False
    have "uploadFile_loop data i reported s env = (Fulfilled reported, s, env)"
      by (subst uploadFile_loop.simps) (simp only: False if_False)
    with "1.prems" have "s' = s" "out = reported" by simp_all
    moreover from False have "(length data - i + CHUNK_SIZE - 1) div CHUNK_SIZE = 0"
      by (simp add: CHUNK_SIZE_def)
    ultimately show ?thesis by simp
  qed
qed

text \<open>
  What a call of \<open>uploadFile\<close> that completes has handed to the writer and to the
  reporter.
\<close>

lemma uploadFile_fulfilled_facts:
  assumes "uploadFile p data s env = (Fulfilled reported, s', env')"
  shows "written s' = written s @ [[0x03, 0x02], [0x01]] @
           executeRaw_writes (uploadFile_open_command p) @
           concat (map (\<lambda>k. executeRaw_writes (uploadFile_chunk_command
                     (slice data (k * 512) (k * 512 + 512))))
             [0..<(length data + 511) div 512]) @
           executeRaw_writes (js ''f.close()'') @ [[0x02]] \<and>
         reported = map (\<lambda>k. (min ((k + 1) * 512) (length data), length data))
                      [0..<(length data + 511) div 512] \<and>
         concat (map (\<lambda>k. slice data (k * 512) (k * 512 + 512))
           [0..<(length data + 511) div 512]) = data \<and>
         (\<forall>k<(length data + 511) div 512.
            slice data (k * 512) (k * 512 + 512) \<noteq> [] \<and>
            length (slice data (k * 512) (k * 512 + 512)) \<le> 512) \<and>
         (\<forall>c. uploadFile_chunk_command c = js ''w(bytes(['' @ joinBytes c @ js '']))'')"
proof -
  from andThen_fulfilled [OF assms [unfolded uploadFile_def]] obtain u1 s1 env1 where
    a1: "getPrompt s env = (Fulfilled u1, s1, env1)" and
    r1: "andThen enterRawRepl (\<lambda>_.
         andThen (executeRaw (uploadFile_open_command p)) (\<lambda>_.
         andThen (uploadFile_loop data 0 []) (\<lambda>reported.
         andThen (executeRaw (js ''f.close()'')) (\<lambda>_.
         andThen exitRawRepl (\<lambda>_. returnA reported))))) s1 env1 = (Fulfilled reported, s', env')"
    by (elim exE conjE)
  from andThen_fulfilled [OF r1] obtain u2 s2 env2 where
    a2: "enterRawRepl s1 env1 = (Fulfilled u2, s2, env2)" and
    r2: "andThen (executeRaw (uploadFile_open_command p)) (\<lambda>_.
         andThen (uploadFile_loop data 0 []) (\<lambda>reported.
         andThen (executeRaw (js ''f.close()'')) (\<lambda>_.
         andThen exitRawRepl (\<lambda>_. returnA reported)))) s2 env2 = (Fulfilled reported, s', env')"
    by (elim exE conjE)
  from andThen_fulfilled [OF r2] obtain u3 s3 env3 where
    a3: "executeRaw (uploadFile_open_command p) s2 env2 = (Fulfilled u3, s3, env3)" and
    r3: "andThen (uploadFile_loop data 0 []) (\<lambda>reported.
         andThen (executeRaw (js ''f.close()'')) (\<lambda>_.
         andThen exitRawRepl (\<lambda>_. returnA reported))) s3 env3 = (Fulfilled reported, s', env')"
    by (elim exE conjE)
  from andThen_fulfilled [OF r3] obtain rep s4 env4 where
    a4: "uploadFile_loop data 0 [] s3 env3 = (Fulfilled rep, s4, env4)" and
    r4: "andThen (executeRaw (js ''f.close()'')) (\<lambda>_.
         andThen exitRawRepl (\<lambda>_. returnA rep)) s4 env4 = (Fulfilled reported, s', env')"
    by (elim exE conjE)
  from andThen_fulfilled [OF r4] obtain u5 s5 env5 where
    a5: "executeRaw (js ''f.close()'') s4 env4 = (Fulfilled u5, s5, env5)" and
    r5: "andThen exitRawRepl (\<lambda>_. returnA rep) s5 env5 = (Fulfilled reported, s', env')"
    by (elim exE conjE)
  from andThen_fulfilled [OF r5] obtain u6 s6 env6 where
    a6: "exitRawRepl s5 env5 = (Fulfilled u6, s6, env6)" and
    r6: "returnA rep s6 env6 = (Fulfilled reported, s', env')"
    by (elim exE conjE)
  from r6 have rep: "reported = rep" and s6: "s' = s6" by (simp_all add: returnA_def)
  from getPrompt_fulfilled [OF a1] have w1: "written s1 = written s @ [[0x03, 0x02]]"
    by (rule conjunct2)
  from enterRawRepl_fulfilled [OF a2] have w2: "written s2 = written s1 @ [[0x01]]"
    by (rule conjunct2)
  from executeRaw_fulfilled [OF a3]
  have w3: "written s3 = written s2 @ executeRaw_writes (uploadFile_open_command p)"
    by (rule conjunct2)
  have n: "(length data - 0 + CHUNK_SIZE - 1) div CHUNK_SIZE = (length data + 511) div 512"
    by (simp add: CHUNK_SIZE_def)
  from uploadFile_loop_facts [OF a4]
  have w4: "written s4 = written s3 @
           concat (map (\<lambda>k. executeRaw_writes (uploadFile_chunk_command
                     (slice data (k * 512) (k * 512 + 512))))
             [0..<(length data + 511) div 512])"
    and rp: "rep = map (\<lambda>k. (min (k * 512 + 512) (length data), length data))
                    [0..<(length data + 511) div 512]"
    unfolding n by (simp_all add: CHUNK_SIZE_def)
  from executeRaw_fulfilled [OF a5]
  have w5: "written s5 = written s4 @ executeRaw_writes (js ''f.close()'')"
    by (rule conjunct2)
  from exitRawRepl_fulfilled [OF a6] have w6: "written s6 = written s5 @ [[0x02]]"
    by (rule conjunct2)
  have W: "written s' = written s @ [[0x03, 0x02], [0x01]] @
           executeRaw_writes (uploadFile_open_command p) @
           concat (map (\<lambda>k. executeRaw_writes (uploadFile_chunk_command
                     (slice data (k * 512) (k * 512 + 512))))
             [0..<(length data + 511) div 512]) @
           executeRaw_writes (js ''f.close()'') @ [[0x02]]"
    by (simp only: s6 w6 w5 w4 w3 w2 w1 append_assoc append_Cons append_Nil)
  have R: "reported = map (\<lambda>k. (min ((k + 1) * 512) (length data), length data))
                      [0..<(length data + 511) div 512]"
    by (simp only: rep rp) (simp add: algebra_simps)
  have C: "concat (map (\<lambda>k. slice data (k * 512) (k * 512 + 512))
           [0..<(length data + 511) div 512]) = data"
  proof -
    have e: "length data + 512 - 1 = length data + 511" by simp
    have "0 < (512::nat)" by simp
    from slices_cover [OF this, of data] show ?thesis by (simp only: e)
  qed
  have B: "\<forall>k<(length data + 511) div 512.
            slice data (k * 512) (k * 512 + 512) \<noteq> [] \<and>
            length (slice data (k * 512) (k * 512 + 512)) \<le> 512"
  proof (intro allI impI)
    fix k assume "k < (length data + 511) div 512"
    then have "k < (length data + 512 - 1) div 512" by simp
    from below_ceil [OF this] have "k * 512 < length data" by simp
    then show "slice data (k * 512) (k * 512 + 512) \<noteq> [] \<and>
            length (slice data (k * 512) (k * 512 + 512)) \<le> 512"
      by (simp add: slice_def)
  qed
  have D: "\<forall>c. uploadFile_chunk_command c = js ''w(bytes(['' @ joinBytes c @ js '']))''"
    by (simp add: uploadFile_chunk_command_def)
  show ?thesis by (intro conjI W R C B D)
qed


section \<open>Reading back what was written\<close>

lemma downloadFile_returns_extract:
  assumes "downloadFile p s env = (Fulfilled r, s', env')"
  shows "\<exists>out. r = downloadFile_extract out"
proof -
  from andThen_fulfilled [OF assms [unfolded downloadFile_def]] obtain u1 s1 env1 where
    a1: "getPrompt s env = (Fulfilled u1, s1, env1)" and
    r1: "andThen runHelper (\<lambda>_.
         andThen enterRawRepl (\<lambda>_.
         andThen (executeRaw (downloadFile_command p)) (\<lambda>output.
         andThen exitRawRepl (\<lambda>_. returnA (downloadFile_extract output))))) s1 env1
           = (Fulfilled r, s', env')"
    by (elim exE conjE)
  from andThen_fulfilled [OF r1] obtain u2 s2 env2 where
    a2: "runHelper s1 env1 = (Fulfilled u2, s2, env2)" and
    r2: "andThen enterRawRepl (\<lambda>_.
         andThen (executeRaw (downloadFile_command p)) (\<lambda>output.
         andThen exitRawRepl (\<lambda>_. returnA (downloadFile_extract output)))) s2 env2
           = (Fulfilled r, s', env')"
    by (elim exE conjE)
  from andThen_fulfilled [OF r2] obtain u3 s3 env3 where
    a3: "enterRawRepl s2 env2 = (Fulfilled u3, s3, env3)" and
    r3: "andThen (executeRaw (downloadFile_command p)) (\<lambda>output.
         andThen exitRawRepl (\<lambda>_. returnA (downloadFile_extract output))) s3 env3
           = (Fulfilled r, s', env')"
    by (elim exE conjE)
  from andThen_fulfilled [OF r3] obtain out s4 env4 where
    r4: "andThen exitRawRepl (\<lambda>_. returnA (downloadFile_extract out)) s4 env4
           = (Fulfilled r, s', env')"
    by (elim exE conjE)
  from andThen_fulfilled [OF r4] obtain u5 s5 env5 where
    a5: "exitRawRepl s4 env4 = (Fulfilled u5, s5, env5)" and
    r5: "returnA (downloadFile_extract out) s5 env5 = (Fulfilled r, s', env')"
    by (elim exE conjE)
  from r5 have "r = downloadFile_extract out" by (simp add: returnA_def)
  then show ?thesis ..
qed

lemma downloadFileToBytes_returns_decoded_extract:
  assumes "downloadFileToBytes atob p s env = (Fulfilled r, s', env')"
  shows "\<exists>out. r = map ucast (atob (downloadFile_extract out))"
proof -
  from andThen_fulfilled [OF assms [unfolded downloadFileToBytes_def]] obtain base64 s1 env1 where
    a: "downloadFile p s env = (Fulfilled base64, s1, env1)" and
    b: "returnA (map ucast (atob base64)) s1 env1 = (Fulfilled r, s', env')"
    by (elim exE conjE)
  from downloadFile_returns_extract [OF a] obtain out where "base64 = downloadFile_extract out" ..
  moreover from b have "r = map ucast (atob base64)" by (simp add: returnA_def)
  ultimately show ?thesis by blast
qed

lemma sublist_set: "sublist t s \<Longrightarrow> set t \<subseteq> set s"
  by (auto simp: sublist_def)

lemma helper_has_no_digit_two: "(0x32 :: jschar) \<notin> set HELPER_CODE"
  by (simp add: HELPER_CODE_def js_def)

lemma helper_without_base64: "\<not> sublist (js ''b2a_base64'') HELPER_CODE"
proof
  assume "sublist (js ''b2a_base64'') HELPER_CODE"
  then have "set (js ''b2a_base64'') \<subseteq> set HELPER_CODE" by (rule sublist_set)
  moreover have "(0x32 :: jschar) \<in> set (js ''b2a_base64'')" by (simp add: js_def)
  ultimately show False using helper_has_no_digit_two by blast
qed

lemma downloadFile_command_calls_base64: "sublist (js ''b2a_base64'') (downloadFile_command p)"
proof -
  have m: "js ''  b = b2a_base64(f.read())'' = js ''  b = '' @ js ''b2a_base64'' @ js ''(f.read())''"
    by (simp add: js_def)
  have "downloadFile_command p =
      (js ''with open('' @ quote @ p @ quote @ js '','' @ quote @ js ''rb'' @ quote @
       js '') as f:'' @ [0x0A] @ js ''  b = '') @ js ''b2a_base64'' @
      (js ''(f.read())'' @ [0x0A] @
       js ''  for i in b:'' @ [0x0A] @ js ''    print( chr(i), end='' @ quote @ quote @ js '' )'' @ [0x0A])"
    by (simp only: downloadFile_command_def m append_assoc)
  then show ?thesis by (simp only: sublist_appendI)
qed

text \<open>
  C2 fails on the code. \<open>uploadFile\<close> escapes the quote of the path \<open>a'b\<close> and opens the
  file of that name; \<open>downloadFile\<close> sends the path as it is, so its command is not the
  Python it was meant to be. Its command calls \<open>b2a_base64\<close> for every path, a name that
  \<open>HELPER_CODE\<close> does not contain. When the device answers a command that fails with
  \<open>OK\<close>, the byte 4, the traceback and the byte 4 followed by \<open>></\<close>, \<open>downloadFile\<close> returns
  the empty string, whatever was uploaded; from a reply that carries a payload it
  returns the payload.
\<close>

theorem download_after_upload_of_quoted_path:
  "prefix (js ''f=open('a'' @ [0x5C] @ js '''b','wb')'') (uploadFile_open_command (js ''a'b'')) \<and>
   prefix (js ''with open('a'b','rb') as f:'') (downloadFile_command (js ''a'b'')) \<and>
   sublist (js ''b2a_base64'') (downloadFile_command p) \<and>
   \<not> sublist (js ''b2a_base64'') HELPER_CODE \<and>
   downloadFile_extract (js ''OK'' @ [0x04] @ traceback @ [0x04, 0x3E]) = [] \<and>
   downloadFile_extract (js ''OKAQ=='' @ [0x0A, 0x04, 0x04, 0x3E]) = js ''AQ=='' @ [0x0A]"
proof -
  have "prefix (js ''f=open('a'' @ [0x5C] @ js '''b','wb')'') (uploadFile_open_command (js ''a'b'')) \<and>
   prefix (js ''with open('a'b','rb') as f:'') (downloadFile_command (js ''a'b'')) \<and>
   downloadFile_extract (js ''OK'' @ [0x04] @ traceback @ [0x04, 0x3E]) = [] \<and>
   downloadFile_extract (js ''OKAQ=='' @ [0x0A, 0x04, 0x04, 0x3E]) = js ''AQ=='' @ [0x0A]"
    by (simp add: uploadFile_open_command_def downloadFile_command_def downloadFile_extract_def
      escapeQuotes_def quote_def indexOf_def slice_def js_def Let_def)
  with downloadFile_command_calls_base64 [of p] helper_without_base64 show ?thesis by blast
qed

section \<open>The byte list of a chunk command\<close>

lemma digit_value_of_nat: "d < 10 \<Longrightarrow> digit_value (of_nat (48 + d)) = d"
proof -
  assume d: "d < 10"
  have "unat (of_nat (48 + d) :: jschar) = (48 + d) mod 2 ^ LENGTH(16)" by (rule unat_of_nat)
  also have "\<dots> = 48 + d" using d by simp
  finally show ?thesis by (simp only: digit_value_def)
qed

lemma digit_value_sum: "d < 10 \<Longrightarrow> digit_value (48 + of_nat d) = d"
  using digit_value_of_nat [of d] by simp

lemma decimal_value_snoc: "decimal_value (t @ [c]) = 10 * decimal_value t + digit_value c"
  by (simp add: decimal_value_def)

lemma decimal_value_toDecimal: "decimal_value (toDecimal n) = n"
proof (induction n rule: toDecimal.induct)
  case (1 n)
  show ?case
  proof (cases "n < 10")
    case True
    then show ?thesis
      by (subst toDecimal.simps) (simp add: decimal_value_def digit_value_sum)
  next
    case False
    have "decimal_value (toDecimal n) =
            10 * decimal_value (toDecimal (n div 10)) + digit_value (of_nat (48 + n mod 10))"
      by (subst toDecimal.simps) (simp only: False if_False decimal_value_snoc)
    also have "\<dots> = 10 * (n div 10) + n mod 10"
      by (simp only: "1.IH" [OF False]) (simp add: digit_value_sum)
    finally show ?thesis by simp
  qed
qed

lemma toDecimal_digits: "c \<in> set (toDecimal n) \<Longrightarrow> \<exists>d<10. c = of_nat (48 + d)"
proof (induction n rule: toDecimal.induct)
  case (1 n)
  show ?case
  proof (cases "n < 10")
    case True
    with "1.prems" have "c = of_nat (48 + n)" by (subst (asm) toDecimal.simps) simp
    with True show ?thesis by blast
  next
    case False
    with "1.prems" have "c \<in> set (toDecimal (n div 10)) \<or> c = of_nat (48 + n mod 10)"
      by (subst (asm) toDecimal.simps) auto
    then show ?thesis
    proof
      assume "c \<in> set (toDecimal (n div 10))"
      then show ?thesis by (rule "1.IH" [OF False])
    next
      assume "c = of_nat (48 + n mod 10)"
      moreover have "n mod 10 < 10" by simp
      ultimately show ?thesis by blast
    qed
  qed
qed

lemma toDecimal_nonempty: "toDecimal n \<noteq> []"
  by (subst toDecimal.simps) simp

lemma digit_is_digit: "d < 10 \<Longrightarrow> (of_nat (48 + d) :: jschar) \<in> set (js ''0123456789'')"
proof -
  assume "d < 10"
  then have "d \<in> {0, 1, 2, 3, 4, 5, 6, 7, 8, 9}" by auto
  then show ?thesis by (auto simp: js_def)
qed

lemma toDecimal_charset: "set (toDecimal n) \<subseteq> set (js ''0123456789'')"
  using toDecimal_digits digit_is_digit by blast

lemma toDecimal_no_comma: "0x2C \<notin> set (toDecimal n)"
proof
  assume "0x2C \<in> set (toDecimal n)"
  with toDecimal_charset have "(0x2C :: jschar) \<in> set (js ''0123456789'')" by blast
  then show False by (simp add: js_def)
qed

lemma split_commas_nonempty: "split_commas t \<noteq> []"
  by (induction t) (simp_all split: list.splits)

lemma split_commas_word: "0x2C \<notin> set w \<Longrightarrow> split_commas w = [w]"
  by (induction w) simp_all

lemma split_commas_append:
  "0x2C \<notin> set w \<Longrightarrow> split_commas (w @ 0x2C # t) = w # split_commas t"
  by (induction w) simp_all

lemma joinBytes_nonempty: "c \<noteq> [] \<Longrightarrow> joinBytes c \<noteq> []"
  by (induction c rule: joinBytes.induct) (simp_all add: toDecimal_nonempty)

lemma joinBytes_charset: "set (joinBytes c) \<subseteq> set (js ''0123456789,'')"
proof (induction c rule: joinBytes.induct)
  case 1
  show ?case by simp
next
  case (2 b)
  have "set (js ''0123456789'') \<subseteq> set (js ''0123456789,'')" by (simp add: js_def) 
  with toDecimal_charset [of "unat b"] show ?case by simp
next
  case (3 b c rest)
  have "set (js ''0123456789'') \<subseteq> set (js ''0123456789,'')" by (simp add: js_def) 
  with toDecimal_charset [of "unat b"] have "set (toDecimal (unat b)) \<subseteq> set (js ''0123456789,'')"
    by blast
  moreover have "set (js '','') \<subseteq> set (js ''0123456789,'')" by (simp add: js_def)
  ultimately show ?case using 3 by simp
qed

lemma byte_list_value_joinBytes: "byte_list_value (joinBytes c) = map unat c"
proof (induction c rule: joinBytes.induct)
  case 1
  show ?case by (simp add: byte_list_value_def)
next
  case (2 b)
  show ?case
    by (simp add: byte_list_value_def toDecimal_nonempty split_commas_word toDecimal_no_comma
        decimal_value_toDecimal)
next
  case (3 b c rest)
  have ne: "joinBytes (c # rest) \<noteq> []" by (rule joinBytes_nonempty) simp
  have j: "joinBytes (b # c # rest) = toDecimal (unat b) @ 0x2C # joinBytes (c # rest)"
    by (simp add: js_def)
  have s: "split_commas (joinBytes (b # c # rest)) =
             toDecimal (unat b) # split_commas (joinBytes (c # rest))"
    by (simp only: j split_commas_append [OF toDecimal_no_comma])
  from 3 ne have ih: "map decimal_value (split_commas (joinBytes (c # rest))) = map unat (c # rest)"
    by (simp add: byte_list_value_def)
  have "joinBytes (b # c # rest) \<noteq> []" by (simp add: toDecimal_nonempty)
  then have "byte_list_value (joinBytes (b # c # rest)) =
          map decimal_value (split_commas (joinBytes (b # c # rest)))"
    by (simp only: byte_list_value_def if_False)
  also have "\<dots> = unat b # map unat (c # rest)"
    by (simp only: s list.map ih decimal_value_toDecimal)
  finally show ?case by simp
qed

section \<open>Operations on a device that answers\<close>

lemma awaitPromise_answered:
  assumes "waiting s p tok" and "readingBuffer s = []" and "sublist tok r"
  shows "\<exists>s'. awaitPromise p s ([Text r] # rest) = (Fulfilled r, s', [] # rest) \<and>
              readingUntil s' = None"
proof -
  let ?s' = "onData s (Text r)"
  have st: "status s p = Pending" using assms(1) by (rule waiting_status)
  have p: "p < length (promises s)" using assms(1) by (simp add: waiting_def)
  have s': "?s' = s\<lparr>readingUntil := None, readingBuffer := [],
             resolveReadingUntilPromise := Noop, rejectReadingUntilPromise := Noop,
             promises := (promises s)[p := Resolved r]\<rparr>"
    using onData_waiting [OF assms(1), of "Text r"] assms(2,3) by (simp add: decodeChunk_def)
  have st': "status ?s' p = Resolved r" using p by (simp add: s' status_def)
  have "awaitPromise p s ([Text r] # rest) = awaitPromise p ?s' ([] # rest)"
    using st by simp
  also have "\<dots> = (outcome (status ?s' p), ?s', [] # rest)"
    by (rule awaitPromise_settled) (simp add: st')
  finally have "awaitPromise p s ([Text r] # rest) = (Fulfilled r, ?s', [] # rest)"
    by (simp add: st' outcome_def)
  moreover have "readingUntil ?s' = None" by (simp add: s')
  ultimately show ?thesis by blast
qed

lemma awaitReadUntil_answered:
  assumes "readingUntil s = None" and "sublist tok r"
  shows "\<exists>s'. awaitReadUntil tok s ([Text r] # rest) = (Fulfilled r, s', [] # rest) \<and>
              readingUntil s' = None"
    and "\<exists>s'. awaitReadUntil tok s ([] # [Text r] # rest) = (Fulfilled r, s', [] # rest) \<and>
              readingUntil s' = None"
proof -
  obtain x s1 where rs: "readUntil s tok = (x, s1)" by (cases "readUntil s tok")
  from readUntil_waiting [OF assms(1) rs] have x: "x = Inr (length (promises s))"
    and w: "waiting s1 (length (promises s)) tok" and b: "readingBuffer s1 = []" by simp_all
  have a: "\<And>env. awaitReadUntil tok s env = awaitPromise (length (promises s)) s1 env"
    using rs x by (simp add: awaitReadUntil_def)
  from awaitPromise_answered [OF w b assms(2), of rest]
  show "\<exists>s'. awaitReadUntil tok s ([Text r] # rest) = (Fulfilled r, s', [] # rest) \<and>
              readingUntil s' = None" by (simp only: a)
  have "awaitPromise (length (promises s)) s1 ([] # [Text r] # rest) =
        awaitPromise (length (promises s)) s1 ([Text r] # rest)"
    using waiting_status [OF w] by simp
  with awaitPromise_answered [OF w b assms(2), of rest]
  show "\<exists>s'. awaitReadUntil tok s ([] # [Text r] # rest) = (Fulfilled r, s', [] # rest) \<and>
              readingUntil s' = None" by (simp only: a)
qed

lemma andThen_step:
  "m s env = (Fulfilled x, s1, env1) \<Longrightarrow> andThen m f s env = f x s1 env1"
  by (simp add: andThen_def)

lemma answers_andThen:
  assumes "answers m r1" and "\<And>x. answers (f x) r2"
  shows "answers (andThen m f) (r1 @ r2)"
  unfolding answers_def
proof (intro allI impI)
  fix s :: session and rest :: arrivals
  assume i: "readingUntil s = None"
  from assms(1) i obtain x s1 where
    a: "m s ([] # r1 @ (r2 @ rest)) = (Fulfilled x, s1, [] # r2 @ rest)" and
    i1: "readingUntil s1 = None" unfolding answers_def by blast
  from assms(2) [of x] i1 obtain y s2 where
    b: "f x s1 ([] # r2 @ rest) = (Fulfilled y, s2, [] # rest)" and
    i2: "readingUntil s2 = None" unfolding answers_def by blast
  have "andThen m f s ([] # (r1 @ r2) @ rest) = (Fulfilled y, s2, [] # rest)"
    using a b by (simp add: andThen_def)
  with i2 show "\<exists>x s'. andThen m f s ([] # (r1 @ r2) @ rest) = (Fulfilled x, s', [] # rest) \<and>
                  readingUntil s' = None" by blast
qed

lemma answers_returnA: "answers (returnA x) []"
  by (simp add: answers_def returnA_def)

lemma answers_writeThenWait:
  assumes "sublist tok r"
  shows "answers (\<lambda>s. andThen (awaitReadUntil tok) (\<lambda>_. returnA ()) (writeStr s str)) [[Text r]]"
  unfolding answers_def
proof (intro allI impI)
  fix s :: session and rest :: arrivals
  assume i: "readingUntil s = None"
  then have "readingUntil (writeStr s str) = None" by (simp add: writeStr_def)
  from awaitReadUntil_answered(2) [OF this assms, of rest] obtain s' where
    a: "awaitReadUntil tok (writeStr s str) ([] # [Text r] # rest) = (Fulfilled r, s', [] # rest)"
    and i': "readingUntil s' = None" by blast
  have "andThen (awaitReadUntil tok) (\<lambda>_. returnA ()) (writeStr s str) ([] # [[Text r]] @ rest)
          = (Fulfilled (), s', [] # rest)"
    using a by (simp add: andThen_def returnA_def)
  with i' show "\<exists>x s'. andThen (awaitReadUntil tok) (\<lambda>_. returnA ()) (writeStr s str)
                   ([] # [[Text r]] @ rest) = (Fulfilled x, s', [] # rest) \<and>
                 readingUntil s' = None" by blast
qed

lemma getPrompt_idle:
  "readingUntil s = None \<Longrightarrow>
   getPrompt s env = andThen (awaitReadUntil (js ''>>>'')) (\<lambda>_. returnA ()) (writeStr s [0x03, 0x02]) env"
  by (simp add: getPrompt_def truthy_def)


lemma answers_enterRawRepl:
  "sublist (js ''raw REPL; CTRL-B to exit'') r \<Longrightarrow> answers enterRawRepl [[Text r]]"
  using answers_writeThenWait [of "js ''raw REPL; CTRL-B to exit''" r "[0x01]"]
  by (simp add: answers_def enterRawRepl_def)

lemma answers_exitRawRepl: "sublist (js ''>>>'') r \<Longrightarrow> answers exitRawRepl [[Text r]]"
  using answers_writeThenWait [of "js ''>>>''" r "[0x02]"]
  by (simp add: answers_def exitRawRepl_def)

lemma answers_executeRaw:
  assumes "sublist [0x04, 0x3E] out"
  shows "answers (executeRaw code) (executeRaw_replies code out)"
  unfolding answers_def
proof (intro allI impI)
  fix s :: session and rest :: arrivals
  assume i: "readingUntil s = None"
  let ?n = "(length code + S - 1) div S"
  let ?env = "[] # executeRaw_replies code out @ rest"
  obtain c s' env' where e: "executeRaw code s ?env = (c, s', env')"
    by (cases "executeRaw code s ?env")
  from executeRaw_steps [OF e] obtain s2 where
    w: "awaitReadUntil [0x04, 0x3E] s2 (drop (2 * ?n + 1) ?env) = (c, s', env')" and
    i2': "readingUntil s = None \<longrightarrow> readingUntil s2 = None"
    by (elim exE conjE)
  from i2' i have i2: "readingUntil s2 = None" by (rule mp)
  have d: "drop (2 * ?n + 1) ?env = [Text out] # rest"
    by (simp add: executeRaw_replies_def)
  from awaitReadUntil_answered(1) [OF i2 assms, of rest] obtain s3 where
    a: "awaitReadUntil [0x04, 0x3E] s2 ([Text out] # rest) = (Fulfilled out, s3, [] # rest)" and
    i3: "readingUntil s3 = None" by blast
  from w d a have "c = Fulfilled out" "s' = s3" "env' = [] # rest" by simp_all
  with e i3 show "\<exists>x s'. executeRaw code s ?env = (Fulfilled x, s', [] # rest) \<and>
                    readingUntil s' = None" by blast
qed

lemma answers_uploadFile_loop:
  assumes "sublist [0x04, 0x3E] out"
  shows "answers (uploadFile_loop data i reported)
           (concat (map (\<lambda>k. executeRaw_replies
                      (uploadFile_chunk_command
                         (slice data (i + k * CHUNK_SIZE) (i + k * CHUNK_SIZE + CHUNK_SIZE))) out)
              [0..<(length data - i + CHUNK_SIZE - 1) div CHUNK_SIZE]))"
proof (induction "length data - i" arbitrary: i reported rule: less_induct)
  case less
  have Cpos: "0 < CHUNK_SIZE" by (simp add: CHUNK_SIZE_def)
  show ?case
  proof (cases "i < length data")
    case True
    let ?cmd = "uploadFile_chunk_command (slice data i (i + CHUNK_SIZE))"
    let ?rep = "reported @ [(min (i + CHUNK_SIZE) (length data), length data)]"
    let ?tail = "concat (map (\<lambda>k. executeRaw_replies
                      (uploadFile_chunk_command
                         (slice data (i + CHUNK_SIZE + k * CHUNK_SIZE)
                            (i + CHUNK_SIZE + k * CHUNK_SIZE + CHUNK_SIZE))) out)
              [0..<(length data - (i + CHUNK_SIZE) + CHUNK_SIZE - 1) div CHUNK_SIZE])"
    have u: "concat (map (\<lambda>k. executeRaw_replies
                      (uploadFile_chunk_command
                         (slice data (i + k * CHUNK_SIZE) (i + k * CHUNK_SIZE + CHUNK_SIZE))) out)
              [0..<(length data - i + CHUNK_SIZE - 1) div CHUNK_SIZE]) =
             executeRaw_replies ?cmd out @ ?tail"
      by (simp only: steps_unfold [OF Cpos True,
            of "\<lambda>j. executeRaw_replies (uploadFile_chunk_command (slice data j (j + CHUNK_SIZE))) out"]
          list.map concat.simps)
    have m: "length data - (i + CHUNK_SIZE) < length data - i" using True Cpos by simp
    note IH = less [OF m, of ?rep]
    show ?thesis
      unfolding answers_def
    proof (intro allI impI)
      fix s :: session and rest :: arrivals
      assume idle: "readingUntil s = None"
      from answers_executeRaw [OF assms, of ?cmd] idle obtain x s1 where
        e: "executeRaw ?cmd s ([] # executeRaw_replies ?cmd out @ (?tail @ rest))
              = (Fulfilled x, s1, [] # ?tail @ rest)" and
        i1: "readingUntil s1 = None" unfolding answers_def by blast
      from IH i1 obtain y s2 where
        l: "uploadFile_loop data (i + CHUNK_SIZE) ?rep s1 ([] # ?tail @ rest)
              = (Fulfilled y, s2, [] # rest)" and
        i2: "readingUntil s2 = None" unfolding answers_def by blast
      have env: "[] # (executeRaw_replies ?cmd out @ ?tail) @ rest =
                 [] # executeRaw_replies ?cmd out @ (?tail @ rest)" by simp
      have "uploadFile_loop data i reported s ([] # (executeRaw_replies ?cmd out @ ?tail) @ rest) =
            uploadFile_loop data (i + CHUNK_SIZE) ?rep s1 ([] # ?tail @ rest)"
        by (subst uploadFile_loop.simps) (simp only: True if_True env e prod.case completion.case)
      with l i2 show "\<exists>x s'. uploadFile_loop data i reported s
          ([] # concat (map (\<lambda>k. executeRaw_replies
                      (uploadFile_chunk_command
                         (slice data (i + k * CHUNK_SIZE) (i + k * CHUNK_SIZE + CHUNK_SIZE))) out)
              [0..<(length data - i + CHUNK_SIZE - 1) div CHUNK_SIZE]) @ rest)
           = (Fulfilled x, s', [] # rest) \<and> readingUntil s' = None"
        by (simp only: u) blast
    qed
  next
    case False
    have z: "(length data - i + CHUNK_SIZE - 1) div CHUNK_SIZE = 0"
      using False by (simp add: CHUNK_SIZE_def)
    have e: "concat (map (\<lambda>k. executeRaw_replies
                      (uploadFile_chunk_command
                         (slice data (i + k * CHUNK_SIZE) (i + k * CHUNK_SIZE + CHUNK_SIZE))) out)
              [0..<(length data - i + CHUNK_SIZE - 1) div CHUNK_SIZE]) = []"
      by (simp only: z) simp
    have f: "\<And>s env. uploadFile_loop data i reported s env = (Fulfilled reported, s, env)"
      by (subst uploadFile_loop.simps) (simp only: False if_False)
    show ?thesis unfolding answers_def e by (simp add: f)
  qed
qed

lemma sublist_self: "sublist (t :: 'a list) t"
  by (rule sublist_order.order_refl)

lemma sublist_ok: "sublist [0x04, 0x3E] (js ''OK'' @ [0x04, 0x04, 0x3E :: jschar])"
proof -
  have "js ''OK'' @ [0x04, 0x04, 0x3E :: jschar] = (js ''OK'' @ [0x04]) @ [0x04, 0x3E] @ []"
    by simp
  then show ?thesis unfolding sublist_def by blast
qed

lemma uploadFile_answered:
  assumes "readingUntil s = None"
  shows "\<exists>reported s'. uploadFile p data s (uploadFile_replies p data)
           = (Fulfilled reported, s', [[]])"
proof -
  let ?ok = "js ''OK'' @ [0x04, 0x04, 0x3E]"
  let ?loop = "concat (map (\<lambda>k. executeRaw_replies
               (uploadFile_chunk_command (slice data (k * CHUNK_SIZE) (k * CHUNK_SIZE + CHUNK_SIZE)))
               ?ok)
       [0..<(length data + CHUNK_SIZE - 1) div CHUNK_SIZE])"
  let ?rest = "\<lambda>_ :: unit.
     andThen enterRawRepl (\<lambda>_.
     andThen (executeRaw (uploadFile_open_command p)) (\<lambda>_.
     andThen (uploadFile_loop data 0 []) (\<lambda>reported.
     andThen (executeRaw (js ''f.close()'')) (\<lambda>_.
     andThen exitRawRepl (\<lambda>_. returnA reported)))))"
  have l: "answers (uploadFile_loop data 0 []) ?loop"
    using answers_uploadFile_loop [OF sublist_ok, of data 0 "[]"] by simp
  have "answers (?rest ())
     ([[Text (js ''raw REPL; CTRL-B to exit'')]] @
      (executeRaw_replies (uploadFile_open_command p) ?ok @
       (?loop @ (executeRaw_replies (js ''f.close()'') ?ok @ ([[Text (js ''>>>'')]] @ [])))))"
    by (intro answers_andThen answers_enterRawRepl answers_executeRaw answers_exitRawRepl
        answers_returnA l sublist_ok sublist_self)
  then have r: "answers (?rest ())
     ([[Text (js ''raw REPL; CTRL-B to exit'')]] @
      executeRaw_replies (uploadFile_open_command p) ?ok @
       ?loop @ executeRaw_replies (js ''f.close()'') ?ok @ [[Text (js ''>>>'')]])" by simp
  let ?R = "[[Text (js ''raw REPL; CTRL-B to exit'')]] @
      executeRaw_replies (uploadFile_open_command p) ?ok @
       ?loop @ executeRaw_replies (js ''f.close()'') ?ok @ [[Text (js ''>>>'')]]"
  have env: "uploadFile_replies p data = [Text (js ''>>>'')] # ?R"
    by (simp add: uploadFile_replies_def)
  have i0: "readingUntil (writeStr s [0x03, 0x02]) = None" using assms by (simp add: writeStr_def)
  from awaitReadUntil_answered(1) [OF i0 sublist_self [of "js ''>>>''"], of ?R] obtain s1 where
    a: "awaitReadUntil (js ''>>>'') (writeStr s [0x03, 0x02]) ([Text (js ''>>>'')] # ?R)
          = (Fulfilled (js ''>>>''), s1, [] # ?R)" and
    i1: "readingUntil s1 = None" by blast
  have g: "getPrompt s ([Text (js ''>>>'')] # ?R) = (Fulfilled (), s1, [] # ?R)"
    using a by (simp only: getPrompt_idle [OF assms]) (simp add: andThen_def returnA_def)
  from r i1 obtain y s2 where
    b: "?rest () s1 ([] # ?R @ []) = (Fulfilled y, s2, [[]])" unfolding answers_def by blast
  have "uploadFile p data s ([Text (js ''>>>'')] # ?R) = ?rest () s1 ([] # ?R)"
    unfolding uploadFile_def using g by (simp add: andThen_def)
  with b have "uploadFile p data s ([Text (js ''>>>'')] # ?R) = (Fulfilled y, s2, [[]])" by simp
  then show ?thesis by (simp only: env) blast
qed



section \<open>Uploading in chunks\<close>

text \<open>
  C8. A call of \<open>uploadFile\<close> that completes has handed the writer, after the bytes of
  \<open>getPrompt\<close> and \<open>enterRawRepl\<close> and the command that opens the file, one command
  \<open>w(bytes([...]))\<close> for each of the \<open>ceil(n / 512)\<close> consecutive slices of at most 512
  bytes of the input (nonempty, and together the input), then \<open>f.close()\<close> and the byte
  of \<open>exitRawRepl\<close>; and it has called the reporter once per slice, the \<open>k\<close>-th time with
  \<open>min ((k + 1) * 512) n\<close> and \<open>n\<close>. On a session with no wait outstanding and a device
  that answers every wait, the call does complete, with exactly these writes and
  reports, for an input of any length. What stands in the brackets of a chunk command
  is digits and commas, and read as a list of decimal numerals it is the bytes of the
  chunk.
\<close>

theorem uploadFile_chunk_commands_and_progress:
  "(uploadFile p data s env = (Fulfilled reported, s', env') \<longrightarrow>
      written s' = written s @ [[0x03, 0x02], [0x01]] @
        executeRaw_writes (uploadFile_open_command p) @
        concat (map (\<lambda>k. executeRaw_writes (uploadFile_chunk_command
                  (slice data (k * 512) (k * 512 + 512))))
          [0..<(length data + 511) div 512]) @
        executeRaw_writes (js ''f.close()'') @ [[0x02]] \<and>
      reported = map (\<lambda>k. (min ((k + 1) * 512) (length data), length data))
                   [0..<(length data + 511) div 512]) \<and>
   (readingUntil s = None \<longrightarrow>
      (\<exists>s2. uploadFile p data s (uploadFile_replies p data) =
              (Fulfilled (map (\<lambda>k. (min ((k + 1) * 512) (length data), length data))
                            [0..<(length data + 511) div 512]), s2, [[]]) \<and>
            written s2 = written s @ [[0x03, 0x02], [0x01]] @
              executeRaw_writes (uploadFile_open_command p) @
              concat (map (\<lambda>k. executeRaw_writes (uploadFile_chunk_command
                        (slice data (k * 512) (k * 512 + 512))))
                [0..<(length data + 511) div 512]) @
              executeRaw_writes (js ''f.close()'') @ [[0x02]])) \<and>
   concat (map (\<lambda>k. slice data (k * 512) (k * 512 + 512))
     [0..<(length data + 511) div 512]) = data \<and>
   (\<forall>k<(length data + 511) div 512.
      slice data (k * 512) (k * 512 + 512) \<noteq> [] \<and>
      length (slice data (k * 512) (k * 512 + 512)) \<le> 512) \<and>
   (\<forall>c. uploadFile_chunk_command c = js ''w(bytes(['' @ joinBytes c @ js '']))'' \<and>
        byte_list_value (joinBytes c) = map unat c \<and>
        set (joinBytes c) \<subseteq> set (js ''0123456789,''))"
proof (intro conjI impI allI)
  assume a: "uploadFile p data s env = (Fulfilled reported, s', env')"
  from uploadFile_fulfilled_facts [OF a]
  show "written s' = written s @ [[0x03, 0x02], [0x01]] @
        executeRaw_writes (uploadFile_open_command p) @
        concat (map (\<lambda>k. executeRaw_writes (uploadFile_chunk_command
                  (slice data (k * 512) (k * 512 + 512))))
          [0..<(length data + 511) div 512]) @
        executeRaw_writes (js ''f.close()'') @ [[0x02]]" by (rule conjunct1)
  from uploadFile_fulfilled_facts [OF a]
  show "reported = map (\<lambda>k. (min ((k + 1) * 512) (length data), length data))
                   [0..<(length data + 511) div 512]" by (elim conjE)
next
  assume i: "readingUntil s = None"
  from uploadFile_answered [OF i, of p data] obtain r s2 where
    u: "uploadFile p data s (uploadFile_replies p data) = (Fulfilled r, s2, [[]])" by blast
  note f = uploadFile_fulfilled_facts [OF u]
  from f have w: "written s2 = written s @ [[0x03, 0x02], [0x01]] @
              executeRaw_writes (uploadFile_open_command p) @
              concat (map (\<lambda>k. executeRaw_writes (uploadFile_chunk_command
                        (slice data (k * 512) (k * 512 + 512))))
                [0..<(length data + 511) div 512]) @
              executeRaw_writes (js ''f.close()'') @ [[0x02]]" by (rule conjunct1)
  from f have r: "r = map (\<lambda>k. (min ((k + 1) * 512) (length data), length data))
                   [0..<(length data + 511) div 512]" by (elim conjE)
  from u r have "uploadFile p data s (uploadFile_replies p data) =
              (Fulfilled (map (\<lambda>k. (min ((k + 1) * 512) (length data), length data))
                            [0..<(length data + 511) div 512]), s2, [[]])" by simp
  with w show "\<exists>s2. uploadFile p data s (uploadFile_replies p data) =
              (Fulfilled (map (\<lambda>k. (min ((k + 1) * 512) (length data), length data))
                            [0..<(length data + 511) div 512]), s2, [[]]) \<and>
            written s2 = written s @ [[0x03, 0x02], [0x01]] @
              executeRaw_writes (uploadFile_open_command p) @
              concat (map (\<lambda>k. executeRaw_writes (uploadFile_chunk_command
                        (slice data (k * 512) (k * 512 + 512))))
                [0..<(length data + 511) div 512]) @
              executeRaw_writes (js ''f.close()'') @ [[0x02]]" by blast
next
  have e: "length data + 512 - 1 = length data + 511" by simp
  have "0 < (512::nat)" by simp
  from slices_cover [OF this, of data]
  show "concat (map (\<lambda>k. slice data (k * 512) (k * 512 + 512))
     [0..<(length data + 511) div 512]) = data" by (simp only: e)
next
  fix k assume "k < (length data + 511) div 512"
  then have "k < (length data + 512 - 1) div 512" by simp
  from below_ceil [OF this] have k: "k * 512 < length data" by simp
  then show "slice data (k * 512) (k * 512 + 512) \<noteq> []" by (simp add: slice_def)
  show "length (slice data (k * 512) (k * 512 + 512)) \<le> 512" by (simp add: slice_def)
next
  fix c
  show "uploadFile_chunk_command c = js ''w(bytes(['' @ joinBytes c @ js '']))''"
    by (simp add: uploadFile_chunk_command_def)
  show "byte_list_value (joinBytes c) = map unat c" by (rule byte_list_value_joinBytes)
  show "set (joinBytes c) \<subseteq> set (js ''0123456789,'')" by (rule joinBytes_charset)
qed

text \<open>
  1025 bytes to \<open>/f\<close>, every wait answered by the device: three chunk commands, of
  512, 512 and 1 byte, and three calls of the reporter.
\<close>

theorem uploadFile_chunk_commands_and_progress_witness:
  "readingUntil (newSession decodeAscii True) = None \<and>
   (\<exists>s2. uploadFile (js ''/f'') (replicate 1025 0x41) (newSession decodeAscii True)
            (uploadFile_replies (js ''/f'') (replicate 1025 0x41)) =
          (Fulfilled [(512, 1025), (1024, 1025), (1025, 1025)], s2, [[]]) \<and>
        written s2 =
          [[0x03, 0x02], [0x01],
           js ''f=open('/f','wb')'' @ [0x0A] @ js ''w=f.write'', [0x04]] @
          executeRaw_writes (uploadFile_chunk_command (replicate 512 0x41)) @
          executeRaw_writes (uploadFile_chunk_command (replicate 512 0x41)) @
          [js ''w(bytes([65]))'', [0x04], js ''f.close()'', [0x04], [0x02]])"
proof -
  let ?s = "newSession decodeAscii True"
  let ?d = "replicate 1025 (0x41 :: 8 word)"
  have h: "readingUntil ?s = None" by (simp add: newSession_def)
  have n: "[0..<(length ?d + 511) div 512] = [0, 1, 2]"
    by (simp add: upt_rec)
  have s0: "slice ?d (0 * 512) (0 * 512 + 512) = replicate 512 0x41"
    and s1: "slice ?d (1 * 512) (1 * 512 + 512) = replicate 512 0x41"
    and s2: "slice ?d (2 * 512) (2 * 512 + 512) = [0x41]"
    by (simp_all add: slice_def)
  have o: "executeRaw_writes (uploadFile_open_command (js ''/f'')) =
             [js ''f=open('/f','wb')'' @ [0x0A] @ js ''w=f.write'', [0x04]]"
    by (simp add: executeRaw_writes_def uploadFile_open_command_def escapeQuotes_def quote_def
        S_def slice_def js_def)
  have k: "executeRaw_writes (uploadFile_chunk_command [0x41]) = [js ''w(bytes([65]))'', [0x04]]"
    by (simp add: executeRaw_writes_def uploadFile_chunk_command_def toDecimal.simps S_def slice_def js_def)
  have cl: "executeRaw_writes (js ''f.close()'') = [js ''f.close()'', [0x04]]"
    by (simp add: executeRaw_writes_def S_def slice_def js_def)
  have ws: "written ?s = []" by (simp add: newSession_def)
  have r: "map (\<lambda>k. (min ((k + 1) * 512) (length ?d), length ?d)) [0, 1, 2] =
           [(512, 1025), (1024, 1025), (1025, 1025)]" by simp
  from uploadFile_chunk_commands_and_progress [of "js ''/f''" ?d ?s] h
  obtain s2 where
    u: "uploadFile (js ''/f'') ?d ?s (uploadFile_replies (js ''/f'') ?d) =
          (Fulfilled (map (\<lambda>k. (min ((k + 1) * 512) (length ?d), length ?d))
                            [0..<(length ?d + 511) div 512]), s2, [[]])" and
    w: "written s2 = written ?s @ [[0x03, 0x02], [0x01]] @
              executeRaw_writes (uploadFile_open_command (js ''/f'')) @
              concat (map (\<lambda>k. executeRaw_writes (uploadFile_chunk_command
                        (slice ?d (k * 512) (k * 512 + 512))))
                [0..<(length ?d + 511) div 512]) @
              executeRaw_writes (js ''f.close()'') @ [[0x02]]" by blast
  from u have u': "uploadFile (js ''/f'') ?d ?s (uploadFile_replies (js ''/f'') ?d) =
          (Fulfilled [(512, 1025), (1024, 1025), (1025, 1025)], s2, [[]])"
    by (simp only: n r)
  from w have w': "written s2 =
          [[0x03, 0x02], [0x01],
           js ''f=open('/f','wb')'' @ [0x0A] @ js ''w=f.write'', [0x04]] @
          executeRaw_writes (uploadFile_chunk_command (replicate 512 0x41)) @
          executeRaw_writes (uploadFile_chunk_command (replicate 512 0x41)) @
          [js ''w(bytes([65]))'', [0x04], js ''f.close()'', [0x04], [0x02]]"
    by (simp only: n list.map concat.simps s0 s1 s2 o k cl ws) simp
  from h u' w' show ?thesis by blast
qed

section \<open>Removing the root\<close>



end
